theory Spec2Isabelle
  imports Main
begin

section \<open>Data model\<close>

text \<open>
  The control loop of \<^verbatim>\<open>pkg/controller/statefulset/stateful_set_control.go\<close>.
  Integers of the Go code (\<^verbatim>\<open>int\<close>, \<^verbatim>\<open>int32\<close>, \<^verbatim>\<open>int64\<close>) are modelled as
  \<^typ>\<open>int\<close>: the counters count pods of the snapshot and revisions of the history,
  and no arithmetic of the loop comes near the 32-bit or 64-bit bounds. A Go pointer that
  may be nil is an \<^typ>\<open>'a option\<close>, and dereferencing nil is a panic of the model.
  Logging (\<^verbatim>\<open>klog\<close>) and event recording are not effects of the model, but the
  arguments of a log call are evaluated, as Go evaluates them.
\<close>

datatype error = Error string

datatype panic =
    NilDereference
  | IndexOutOfRange
  | SliceBoundsOutOfRange
  | MakeSliceLenOutOfRange

datatype podPhase = PhaseUnset | Pending | Running | Succeeded | Failed | Unknown

text \<open>
  The fields of \<^verbatim>\<open>v1.Pod\<close> that the predicates of the specification read.
\<close>

record pod =
  pod_name :: string
  pod_resourceVersion :: string
  pod_deletionTimestamp :: "nat option"
  pod_phase :: podPhase
  pod_ready :: bool
  pod_revision :: string
  pod_inPlaceGate :: bool
  pod_inPlaceReady :: bool

text \<open>
  Pods are handled through pointers, and line 484 compares two of them. A pointer is
  modelled by where its object comes from: the \<open>i\<close>-th element of the snapshot, the
  object rendered for the empty slot \<open>i\<close> (line 324), or the object rendered after the
  failed pod of slot \<open>i\<close> was deleted (line 391). The pair of a pointer and the object it
  points to stands for \<^verbatim>\<open>*v1.Pod\<close>; no object is written during a pass.
\<close>

datatype podref = Listed nat | Rendered nat | Recreated nat

type_synonym podptr = "podref \<times> pod"

record revision =
  rev_name :: string
  rev_revision :: int
  rev_data :: string

datatype intOrString = FromInt int | FromString string

datatype podUpdatePolicy = RecreatePolicy | InPlaceIfPossible | InPlaceOnly

record rollingUpdate =
  ru_partition :: "int option"
  ru_maxUnavailable :: "intOrString option"
  ru_podUpdatePolicy :: podUpdatePolicy

datatype strategyType = RollingUpdateStatefulSetStrategyType | OnDeleteStatefulSetStrategyType

datatype podManagementPolicy = OrderedReady | Parallel

record status =
  st_observedGeneration :: int
  st_replicas :: int
  st_readyReplicas :: int
  st_currentReplicas :: int
  st_updatedReplicas :: int
  st_currentRevision :: string
  st_updateRevision :: string
  st_collisionCount :: "int option"

record statefulSet =
  set_name :: string
  set_generation :: int
  set_deletionTimestamp :: "nat option"
  set_replicas :: "int option"
  set_podManagementPolicy :: podManagementPolicy
  set_strategyType :: strategyType
  set_rollingUpdate :: "rollingUpdate option"
  set_revisionHistoryLimit :: "int option"
  set_template :: string
  set_status :: status

type_synonym inPlaceUpdateSpec = "(string \<times> string) list"

section \<open>Helpers of the package that the control loop calls\<close>

text \<open>
  \<^verbatim>\<open>stateful_set_utils.go\<close> is not part of the sources at hand. The predicates on
  pods that the specification defines (section 3, Derived predicates, and 4.A) are
  modelled from it; the helpers it leaves open are parameters of the model, collected in
  the record \<open>utils\<close>.
\<close>

text \<open>Modelled from the spec: \<^verbatim>\<open>isCreated\<close>, "pod exists in the store (non-empty
  resource version)".\<close>

definition isCreated :: "pod \<Rightarrow> bool" where
  "isCreated p = (pod_resourceVersion p \<noteq> [])"

text \<open>Modelled from the spec: \<^verbatim>\<open>isTerminating\<close>, "deletionTimestamp is set".\<close>

definition isTerminating :: "pod \<Rightarrow> bool" where
  "isTerminating p = (pod_deletionTimestamp p \<noteq> None)"

text \<open>Modelled from the spec: \<^verbatim>\<open>isRunningAndReady\<close>, "phase == Running and Ready
  condition True".\<close>

definition isRunningAndReady :: "pod \<Rightarrow> bool" where
  "isRunningAndReady p = (pod_phase p = Running \<and> pod_ready p)"

text \<open>Modelled from the spec: \<^verbatim>\<open>isFailed\<close>, "phase == Failed".\<close>

definition isFailed :: "pod \<Rightarrow> bool" where
  "isFailed p = (pod_phase p = Failed)"

text \<open>Modelled from the spec: \<^verbatim>\<open>isHealthy\<close>, "created, not terminating, running and
  ready, and (if InPlaceUpdateReady is a declared readiness gate) that condition is
  True".\<close>

definition isHealthy :: "pod \<Rightarrow> bool" where
  "isHealthy p =
     (isCreated p \<and> \<not> isTerminating p \<and> isRunningAndReady p \<and>
      (pod_inPlaceGate p \<longrightarrow> pod_inPlaceReady p))"

text \<open>Modelled from the spec: \<^verbatim>\<open>getPodRevision\<close>, "read the revision label".\<close>

definition getPodRevision :: "pod \<Rightarrow> string" where
  "getPodRevision p = pod_revision p"

text \<open>Modelled from the spec: \<^verbatim>\<open>getOrdinal\<close>, "parse the trailing \<^verbatim>\<open>-<N>\<close> of the pod
  name; return -1 if absent or non-numeric".\<close>

definition digitOf :: "char \<Rightarrow> nat option" where
  "digitOf c =
     map_of [(CHR ''0'', 0), (CHR ''1'', 1), (CHR ''2'', 2), (CHR ''3'', 3), (CHR ''4'', 4),
             (CHR ''5'', 5), (CHR ''6'', 6), (CHR ''7'', 7), (CHR ''8'', 8), (CHR ''9'', 9)] c"

fun parseDigits :: "nat \<Rightarrow> string \<Rightarrow> nat option" where
  "parseDigits acc [] = Some acc"
| "parseDigits acc (c # cs) =
     (case digitOf c of None \<Rightarrow> None | Some d \<Rightarrow> parseDigits (10 * acc + d) cs)"

definition trailingNumber :: "string \<Rightarrow> string option" where
  "trailingNumber n =
     (let suffix = rev (takeWhile (\<lambda>c. c \<noteq> CHR ''-'') (rev n))
      in if length suffix = length n \<or> suffix = [] then None else Some suffix)"

definition getOrdinal :: "pod \<Rightarrow> int" where
  "getOrdinal p =
     (case trailingNumber (pod_name p) of
        None \<Rightarrow> - 1
      | Some ds \<Rightarrow> (case parseDigits 0 ds of None \<Rightarrow> - 1 | Some k \<Rightarrow> int k))"

text \<open>Modelled from the spec: \<^verbatim>\<open>allowsBurst\<close>, "monotonic <- podManagementPolicy ==
  OrderedReady" (4.E, step 4).\<close>

definition allowsBurst :: "statefulSet \<Rightarrow> bool" where
  "allowsBurst s = (set_podManagementPolicy s = Parallel)"

text \<open>Modelled from the spec: \<^verbatim>\<open>isInPlaceOnly\<close>, the pod update policy of the
  RollingUpdate block is \<^verbatim>\<open>InPlaceOnly\<close> (section 3).\<close>

definition isInPlaceOnly :: "statefulSet \<Rightarrow> bool" where
  "isInPlaceOnly s =
     (case set_rollingUpdate s of
        None \<Rightarrow> False
      | Some ru \<Rightarrow> ru_podUpdatePolicy ru = InPlaceOnly)"

text \<open>
  The helpers that the specification describes only in outline: what they compute is a
  parameter. \<open>renderPod\<close> gives the name, the labels and the readiness gates of the
  object rendered for a slot, \<open>checkInPlaceUpdateCompleted\<close> returns nil (\<open>None\<close>)
  or an error, and
  \<open>revisionPayload\<close> gives the name and the payload of the revision that
  \<^verbatim>\<open>newRevision\<close> builds from a set and a collision count, or its error.
\<close>

record utils =
  revisionPayload :: "statefulSet \<Rightarrow> int \<Rightarrow> error + string \<times> string"
  ApplyRevision :: "statefulSet \<Rightarrow> revision \<Rightarrow> error + statefulSet"
  renderPod ::
    "statefulSet \<Rightarrow> statefulSet \<Rightarrow> string \<Rightarrow> string \<Rightarrow> int \<Rightarrow> pod"
  identityMatches :: "statefulSet \<Rightarrow> pod \<Rightarrow> bool"
  storageMatches :: "statefulSet \<Rightarrow> pod \<Rightarrow> bool"
  shouldUpdateInPlaceReady :: "pod \<Rightarrow> bool"
  checkInPlaceUpdateCompleted :: "pod \<Rightarrow> error option"
  shouldDoInPlaceUpdate ::
    "statefulSet \<Rightarrow> revision \<Rightarrow> string \<Rightarrow> revision list \<Rightarrow> bool \<times> inPlaceUpdateSpec option"
  completeRollingUpdate :: "statefulSet \<Rightarrow> status \<Rightarrow> status"
  inconsistentStatus :: "statefulSet \<Rightarrow> status \<Rightarrow> bool"

text \<open>Modelled from the spec: \<^verbatim>\<open>newVersionedStatefulSetPod\<close>, "a freshly rendered pod
  object" (4.D) with which the sweep is to "proceed as if not created" (4.E (a)): an
  object in memory only, without resource version, deletion timestamp or status.\<close>

definition newVersionedStatefulSetPod ::
  "utils \<Rightarrow> statefulSet \<Rightarrow> statefulSet \<Rightarrow> string \<Rightarrow> string \<Rightarrow> int \<Rightarrow> pod" where
  "newVersionedStatefulSetPod u currentSet updateSet cur upd ord =
     (renderPod u currentSet updateSet cur upd ord)
       \<lparr>pod_resourceVersion := [], pod_deletionTimestamp := None,
        pod_phase := PhaseUnset, pod_ready := False, pod_inPlaceReady := False\<rparr>"

section \<open>Collaborators\<close>

text \<open>
  The Pod Controller, the Status Updater and the Revision Store are collaborators. Every
  write the loop issues is recorded, in order, in a list of calls. Whether a write
  fails is the collaborator's choice: \<open>reply\<close> gives the error (or nil) of a call from
  the calls issued before it, so a collaborator with state of its own is covered.
  \<open>listed\<close> is what \<^verbatim>\<open>ListRevisions\<close> returns and \<open>persisted\<close> the object and the
  collision count that a successful \<^verbatim>\<open>CreateControllerRevision\<close> hands back. A
  collaborator does not write to the objects of the snapshot.
\<close>

datatype call =
    CreateStatefulPod podptr
  | UpdateStatefulPod pod
  | DeleteStatefulPod podptr
  | UpdateStatefulPodCondition podptr bool
  | InPlaceUpdateStatefulPod podptr "inPlaceUpdateSpec option"
  | CreateControllerRevision revision int
  | UpdateControllerRevision revision int
  | DeleteControllerRevision "revision option"
  | UpdateStatefulSetStatus status

record env =
  reply :: "call list \<Rightarrow> call \<Rightarrow> error option"
  listed :: "error + revision list"
  persisted :: "call list \<Rightarrow> revision \<Rightarrow> int \<Rightarrow> revision \<times> int"

definition invoke :: "env \<Rightarrow> call \<Rightarrow> call list \<Rightarrow> error option \<times> call list" where
  "invoke e c cs = (reply e cs c, cs @ [c])"

section \<open>Control flow of a pass\<close>

text \<open>
  The state the three sweeps of \<^verbatim>\<open>updateStatefulSet\<close> work on: the status under
  construction, the slice \<^verbatim>\<open>replicas\<close>, the calls issued so far and the slice
  \<^verbatim>\<open>unavailablePods\<close>. A loop body either falls through to the next iteration
  (\<^verbatim>\<open>continue\<close> included), returns from the function with the error it returns, or
  panics.
\<close>

record pass =
  p_status :: status
  p_replicas :: "podptr list"
  p_calls :: "call list"
  p_unavailable :: "string list"

datatype 's flow = Continue 's | Return 's "error option" | Panic 's panic

fun loop :: "('i \<Rightarrow> 's \<Rightarrow> 's flow) \<Rightarrow> 'i list \<Rightarrow> 's \<Rightarrow> 's flow" where
  "loop body [] s = Continue s"
| "loop body (i # rest) s =
     (case body i s of
        Continue s' \<Rightarrow> loop body rest s'
      | Return s' err \<Rightarrow> Return s' err
      | Panic s' p \<Rightarrow> Panic s' p)"

datatype 'a result = Returned 'a | Panicked panic

section \<open>Partitioning the snapshot (lines 281 to 362)\<close>

definition MaxInt32 :: int where
  "MaxInt32 = 2147483647"

definition snapshot :: "pod list \<Rightarrow> podptr list" where
  "snapshot pods = zip (map Listed [0..<length pods]) pods"

text \<open>Lines 292 to 307: the counters of the status.\<close>

definition countPod :: "string \<Rightarrow> string \<Rightarrow> pod \<Rightarrow> status \<Rightarrow> status" where
  "countPod cur upd p st =
     (let st1 = st\<lparr>st_replicas := st_replicas st + 1\<rparr>;
          st2 = (if isRunningAndReady p
                 then st1\<lparr>st_readyReplicas := st_readyReplicas st1 + 1\<rparr> else st1)
      in if isCreated p \<and> \<not> isTerminating p
         then (let st3 = (if getPodRevision p = cur
                          then st2\<lparr>st_currentReplicas := st_currentReplicas st2 + 1\<rparr>
                          else st2)
               in if getPodRevision p = upd
                  then st3\<lparr>st_updatedReplicas := st_updatedReplicas st3 + 1\<rparr>
                  else st3)
         else st2)"

record partitioned =
  pt_status :: status
  pt_replicas :: "podptr option list"
  pt_condemned :: "podptr list"

text \<open>Lines 309 to 318: the slot of \<^verbatim>\<open>replicas\<close> is assigned, whatever it held.\<close>

definition placePod :: "int \<Rightarrow> podptr \<Rightarrow> partitioned \<Rightarrow> partitioned" where
  "placePod replicaCount pp pt =
     (let ord = getOrdinal (snd pp)
      in if 0 \<le> ord \<and> ord < replicaCount
         then pt\<lparr>pt_replicas := (pt_replicas pt)[nat ord := Some pp]\<rparr>
         else if ord \<ge> replicaCount
         then pt\<lparr>pt_condemned := pt_condemned pt @ [pp]\<rparr>
         else pt)"

fun partitionPods ::
  "string \<Rightarrow> string \<Rightarrow> int \<Rightarrow> podptr list \<Rightarrow> partitioned \<Rightarrow> partitioned" where
  "partitionPods cur upd n [] pt = pt"
| "partitionPods cur upd n (pp # pps) pt =
     partitionPods cur upd n pps
       (placePod n pp (pt\<lparr>pt_status := countPod cur upd (snd pp) (pt_status pt)\<rparr>))"

text \<open>Lines 322 to 330: every empty slot gets a rendered object.\<close>

definition fillReplicas ::
  "utils \<Rightarrow> statefulSet \<Rightarrow> statefulSet \<Rightarrow> string \<Rightarrow> string \<Rightarrow> podptr option list
   \<Rightarrow> podptr list" where
  "fillReplicas u currentSet updateSet cur upd slots =
     map (\<lambda>(ord, slot).
            case slot of
              None \<Rightarrow> (Rendered ord,
                        newVersionedStatefulSetPod u currentSet updateSet cur upd (int ord))
            | Some pp \<Rightarrow> pp)
         (enumerate 0 slots)"

text \<open>
  Line 333: \<^verbatim>\<open>sort.Sort(ascendingOrdinal(condemned))\<close>. The model sorts by insertion;
  Go's sort fixes no order among pods of equal ordinal.
\<close>

definition sortCondemned :: "podptr list \<Rightarrow> podptr list" where
  "sortCondemned condemned = sort_key (\<lambda>pp. getOrdinal (snd pp)) condemned"

text \<open>Lines 336 to 354: the number of unhealthy pods and the first of them.\<close>

record unhealthyScan =
  us_unhealthy :: int
  us_firstOrdinal :: int
  us_firstPod :: "podptr option"

definition scanPod :: "unhealthyScan \<Rightarrow> podptr \<Rightarrow> unhealthyScan" where
  "scanPod us pp =
     (if \<not> isHealthy (snd pp)
      then (let us1 = us\<lparr>us_unhealthy := us_unhealthy us + 1\<rparr>;
                ord = getOrdinal (snd pp)
            in if ord < us_firstOrdinal us
               then us1\<lparr>us_firstOrdinal := ord, us_firstPod := Some pp\<rparr>
               else us1)
      else us)"

definition findFirstUnhealthy :: "podptr list \<Rightarrow> podptr list \<Rightarrow> unhealthyScan" where
  "findFirstUnhealthy replicas condemned =
     foldl scanPod
       (foldl scanPod
          \<lparr>us_unhealthy = 0, us_firstOrdinal = MaxInt32, us_firstPod = None\<rparr> replicas)
       condemned"

section \<open>The forward sweep over replicas (lines 373 to 462)\<close>

definition removeCounted :: "string \<Rightarrow> string \<Rightarrow> pod \<Rightarrow> status \<Rightarrow> status" where
  "removeCounted cur upd p st =
     (let st1 = (if getPodRevision p = cur
                 then st\<lparr>st_currentReplicas := st_currentReplicas st - 1\<rparr> else st)
      in if getPodRevision p = upd
         then st1\<lparr>st_updatedReplicas := st_updatedReplicas st1 - 1\<rparr> else st1)"

definition addCounted :: "string \<Rightarrow> string \<Rightarrow> pod \<Rightarrow> status \<Rightarrow> status" where
  "addCounted cur upd p st =
     (let st1 = (if getPodRevision p = cur
                 then st\<lparr>st_currentReplicas := st_currentReplicas st + 1\<rparr> else st)
      in if getPodRevision p = upd
         then st1\<lparr>st_updatedReplicas := st_updatedReplicas st1 + 1\<rparr> else st1)"

text \<open>Lines 375 to 397: a failed pod is deleted and its slot rendered anew.\<close>

definition recreateFailed ::
  "utils \<Rightarrow> env \<Rightarrow> statefulSet \<Rightarrow> statefulSet \<Rightarrow> string \<Rightarrow> string \<Rightarrow> nat \<Rightarrow> pass
   \<Rightarrow> pass flow" where
  "recreateFailed u e currentSet updateSet cur upd i s =
     (let rp = p_replicas s ! i
      in if isFailed (snd rp)
         then (case invoke e (DeleteStatefulPod rp) (p_calls s) of
                 (Some err, cs) \<Rightarrow> Return (s\<lparr>p_calls := cs\<rparr>) (Some err)
               | (None, cs) \<Rightarrow>
                   Continue
                     (s\<lparr>p_calls := cs,
                        p_status :=
                          (let st = removeCounted cur upd (snd rp) (p_status s)
                           in st\<lparr>st_replicas := st_replicas st - 1\<rparr>),
                        p_replicas :=
                          (p_replicas s)
                            [i := (Recreated i,
                                   newVersionedStatefulSetPod u currentSet updateSet cur upd
                                     (int i))]\<rparr>))
         else Continue s)"

text \<open>Lines 399 to 461: the rest of the body, on the pod the slot now holds.\<close>

definition forwardBody ::
  "utils \<Rightarrow> env \<Rightarrow> statefulSet \<Rightarrow> statefulSet \<Rightarrow> statefulSet \<Rightarrow> string \<Rightarrow> string \<Rightarrow> bool
   \<Rightarrow> nat \<Rightarrow> pass \<Rightarrow> pass flow" where
  "forwardBody u e sset currentSet updateSet cur upd monotonic i s =
     (case recreateFailed u e currentSet updateSet cur upd i s of
        Continue s1 \<Rightarrow>
          (let rp = p_replicas s1 ! i
           in if \<not> isCreated (snd rp)
              then (case invoke e (CreateStatefulPod rp) (p_calls s1) of
                      (Some err, cs) \<Rightarrow> Return (s1\<lparr>p_calls := cs\<rparr>) (Some err)
                    | (None, cs) \<Rightarrow>
                        (let st = p_status s1;
                             s2 = s1\<lparr>p_calls := cs,
                                     p_status :=
                                       addCounted cur upd (snd rp)
                                         (st\<lparr>st_replicas := st_replicas st + 1\<rparr>)\<rparr>
                         in if monotonic then Return s2 None else Continue s2))
              else if isTerminating (snd rp) \<and> monotonic then Return s1 None
              else (case (if shouldUpdateInPlaceReady u (snd rp)
                          then invoke e (UpdateStatefulPodCondition rp True) (p_calls s1)
                          else (None, p_calls s1)) of
                      (Some err, cs) \<Rightarrow> Return (s1\<lparr>p_calls := cs\<rparr>) (Some err)
                    | (None, cs) \<Rightarrow>
                        (let s2 = s1\<lparr>p_calls := cs\<rparr>
                         in if \<not> isRunningAndReady (snd rp) \<and> monotonic then Return s2 None
                            else if identityMatches u sset (snd rp) \<and>
                                    storageMatches u sset (snd rp)
                            then Continue s2
                            else (case invoke e (UpdateStatefulPod (snd rp)) cs of
                                    (Some err, cs') \<Rightarrow>
                                      Return (s2\<lparr>p_calls := cs'\<rparr>) (Some err)
                                  | (None, cs') \<Rightarrow> Continue (s2\<lparr>p_calls := cs'\<rparr>)))))
      | Return s1 err \<Rightarrow> Return s1 err
      | Panic s1 p \<Rightarrow> Panic s1 p)"

section \<open>The scale-down sweep over condemned (lines 469 to 509)\<close>

text \<open>
  Line 484 compares the pointers \<^verbatim>\<open>condemned[target]\<close> and
  \<^verbatim>\<open>firstUnhealthyPod\<close>; the log call of line 485 reads
  \<^verbatim>\<open>firstUnhealthyPod.Name\<close>.
\<close>

definition condemnedBody ::
  "env \<Rightarrow> podptr list \<Rightarrow> podptr option \<Rightarrow> string \<Rightarrow> string \<Rightarrow> bool \<Rightarrow> nat \<Rightarrow> pass
   \<Rightarrow> pass flow" where
  "condemnedBody e condemned firstUnhealthyPod cur upd monotonic target s =
     (let cp = condemned ! target
      in if isTerminating (snd cp)
         then (if monotonic then Return s None else Continue s)
         else if \<not> isRunningAndReady (snd cp) \<and> monotonic \<and>
                 Some (fst cp) \<noteq> map_option fst firstUnhealthyPod
         then (case firstUnhealthyPod of
                 None \<Rightarrow> Panic s NilDereference
               | Some fp \<Rightarrow> Return s None)
         else (case invoke e (DeleteStatefulPod cp) (p_calls s) of
                 (Some err, cs) \<Rightarrow> Return (s\<lparr>p_calls := cs\<rparr>) (Some err)
               | (None, cs) \<Rightarrow>
                   (let s1 = s\<lparr>p_calls := cs,
                               p_status := removeCounted cur upd (snd cp) (p_status s)\<rparr>
                    in if monotonic then Return s1 None else Continue s1)))"

section \<open>The update sweep (lines 511 to 592)\<close>

text \<open>
  \<^verbatim>\<open>intstr.ValueOrDefault\<close> and \<^verbatim>\<open>intstr.GetValueFromIntOrPercent\<close> of the
  Kubernetes library: an integer is taken as it is; a string has its percent signs
  removed, is read by \<^verbatim>\<open>strconv.Atoi\<close> and scaled by the total, rounded down when
  \<^verbatim>\<open>roundUp\<close> is false.
\<close>

definition atoi :: "string \<Rightarrow> int option" where
  "atoi s =
     (case s of
        [] \<Rightarrow> None
      | c # cs \<Rightarrow>
          if c = CHR ''-'' then (if cs = [] then None
                                 else map_option (\<lambda>k. - int k) (parseDigits 0 cs))
          else if c = CHR ''+'' then (if cs = [] then None
                                      else map_option int (parseDigits 0 cs))
          else map_option int (parseDigits 0 s))"

definition ValueOrDefault :: "intOrString option \<Rightarrow> intOrString \<Rightarrow> intOrString" where
  "ValueOrDefault v d = (case v of None \<Rightarrow> d | Some x \<Rightarrow> x)"

definition GetValueFromIntOrPercent :: "intOrString \<Rightarrow> int \<Rightarrow> bool \<Rightarrow> error + int" where
  "GetValueFromIntOrPercent v whole roundUp =
     (case v of
        FromInt k \<Rightarrow> Inr k
      | FromString str \<Rightarrow>
          (case atoi (filter (\<lambda>c. c \<noteq> CHR ''%'') str) of
             None \<Rightarrow> Inl (Error ''invalid value for IntOrString'')
           | Some k \<Rightarrow>
               Inr (if roundUp then - ((- (k * whole)) div 100) else (k * whole) div 100)))"

text \<open>Lines 517 to 525: the lowest ordinal of the sweep and the bound on unavailable
  pods. \<^verbatim>\<open>Partition\<close> is dereferenced without a check.\<close>

datatype 'a attempt = Succeeds 'a | Fails error | Panics panic

definition resolveStrategy :: "statefulSet \<Rightarrow> int \<Rightarrow> (int \<times> int) attempt" where
  "resolveStrategy sset replicaCount =
     (case set_rollingUpdate sset of
        None \<Rightarrow> Succeeds (0, 1)
      | Some ru \<Rightarrow>
          (case ru_partition ru of
             None \<Rightarrow> Panics NilDereference
           | Some updateMin \<Rightarrow>
               (case GetValueFromIntOrPercent
                       (ValueOrDefault (ru_maxUnavailable ru) (FromInt 1)) replicaCount False of
                  Inl err \<Rightarrow> Fails err
                | Inr maxUnavailable \<Rightarrow> Succeeds (updateMin, maxUnavailable))))"

text \<open>Lines 595 to 623.\<close>

definition inPlaceUpdatePod ::
  "env \<Rightarrow> podptr \<Rightarrow> inPlaceUpdateSpec option \<Rightarrow> call list \<Rightarrow> error option \<times> call list" where
  "inPlaceUpdatePod e rp spec cs =
     (case invoke e (UpdateStatefulPodCondition rp False) cs of
        (Some err, cs1) \<Rightarrow> (Some err, cs1)
      | (None, cs1) \<Rightarrow> invoke e (InPlaceUpdateStatefulPod rp spec) cs1)"

text \<open>
  Lines 532 to 568: the pod does not match the update revision and is not terminating.
  The error of \<^verbatim>\<open>inPlaceUpdatePod\<close> is only compared with nil (line 550).
\<close>

definition updatePod ::
  "utils \<Rightarrow> env \<Rightarrow> statefulSet \<Rightarrow> string \<Rightarrow> revision \<Rightarrow> revision list \<Rightarrow> podptr \<Rightarrow> pass
   \<Rightarrow> pass flow" where
  "updatePod u e sset cur updateRevision revisions rp s =
     (let decision = shouldDoInPlaceUpdate u sset updateRevision (getPodRevision (snd rp))
                       revisions;
          useInPlaceUpdate = fst decision;
          skipUpdating = (useInPlaceUpdate \<and>
                          checkInPlaceUpdateCompleted u (snd rp) \<noteq> None);
          attempt = (if useInPlaceUpdate \<and> \<not> skipUpdating
                     then inPlaceUpdatePod e rp (snd decision) (p_calls s)
                     else (None, p_calls s));
          useInPlaceUpdate' = (useInPlaceUpdate \<and>
                               \<not> (fst attempt \<noteq> None \<and> \<not> isInPlaceOnly sset));
          counted = (\<lambda>st. if \<not> skipUpdating \<and> getPodRevision (snd rp) = cur
                           then st\<lparr>st_currentReplicas := st_currentReplicas st - 1\<rparr>
                           else st)
      in if \<not> useInPlaceUpdate'
         then (case invoke e (DeleteStatefulPod rp) (snd attempt) of
                 (Some err, cs) \<Rightarrow> Return (s\<lparr>p_calls := cs\<rparr>) (Some err)
               | (None, cs) \<Rightarrow>
                   Continue (s\<lparr>p_calls := cs, p_status := counted (p_status s)\<rparr>))
         else Continue (s\<lparr>p_calls := snd attempt, p_status := counted (p_status s)\<rparr>))"

text \<open>Lines 570 to 579: whether the pod of the slot is appended to
  \<^verbatim>\<open>unavailablePods\<close>.\<close>

definition isUnavailable :: "utils \<Rightarrow> string \<Rightarrow> pod \<Rightarrow> bool" where
  "isUnavailable u upd p =
     (if getPodRevision p \<noteq> upd \<or> \<not> isHealthy p then True
      else checkInPlaceUpdateCompleted u p \<noteq> None)"

text \<open>Lines 528 to 591: the body for one \<^verbatim>\<open>target\<close>; indexing \<^verbatim>\<open>replicas\<close> outside
  its bounds panics.\<close>

definition updateBody ::
  "utils \<Rightarrow> env \<Rightarrow> statefulSet \<Rightarrow> string \<Rightarrow> revision \<Rightarrow> revision list \<Rightarrow> int \<Rightarrow> int \<Rightarrow> pass
   \<Rightarrow> pass flow" where
  "updateBody u e sset cur updateRevision revisions maxUnavailable target s =
     (if target < 0 \<or> int (length (p_replicas s)) \<le> target then Panic s IndexOutOfRange
      else
        (let rp = p_replicas s ! nat target
         in case (if getPodRevision (snd rp) \<noteq> rev_name updateRevision \<and>
                     \<not> isTerminating (snd rp)
                  then updatePod u e sset cur updateRevision revisions rp s
                  else Continue s) of
              Continue s1 \<Rightarrow>
                (let s2 = (if isUnavailable u (rev_name updateRevision) (snd rp)
                           then s1\<lparr>p_unavailable := p_unavailable s1 @ [pod_name (snd rp)]\<rparr>
                           else s1)
                 in if int (length (p_unavailable s2)) \<ge> maxUnavailable
                    then Return s2 None else Continue s2)
            | Return s1 err \<Rightarrow> Return s1 err
            | Panic s1 p \<Rightarrow> Panic s1 p))"

text \<open>The targets of the sweep: \<^verbatim>\<open>len(replicas) - 1\<close> down to \<^verbatim>\<open>updateMin\<close>.\<close>

definition updateTargets :: "int \<Rightarrow> nat \<Rightarrow> int list" where
  "updateTargets updateMin n = rev [updateMin..int n - 1]"

definition updateSweep ::
  "utils \<Rightarrow> env \<Rightarrow> statefulSet \<Rightarrow> string \<Rightarrow> revision \<Rightarrow> revision list \<Rightarrow> int \<Rightarrow> pass
   \<Rightarrow> pass flow" where
  "updateSweep u e sset cur updateRevision revisions replicaCount s =
     (if set_strategyType sset = OnDeleteStatefulSetStrategyType then Return s None
      else (case resolveStrategy sset replicaCount of
              Panics p \<Rightarrow> Panic s p
            | Fails err \<Rightarrow> Return s (Some err)
            | Succeeds (updateMin, maxUnavailable) \<Rightarrow>
                (case loop (updateBody u e sset cur updateRevision revisions maxUnavailable)
                        (updateTargets updateMin (length (p_replicas s))) s of
                   Continue s1 \<Rightarrow> Return s1 None
                 | Return s1 err \<Rightarrow> Return s1 err
                 | Panic s1 p \<Rightarrow> Panic s1 p)))"

section \<open>updateStatefulSet (lines 256 to 593)\<close>

text \<open>Lines 273 to 279: the status the pass starts from.\<close>

definition seedStatus :: "statefulSet \<Rightarrow> revision \<Rightarrow> revision \<Rightarrow> int \<Rightarrow> status" where
  "seedStatus sset currentRevision updateRevision collisionCount =
     \<lparr>st_observedGeneration = set_generation sset,
      st_replicas = 0,
      st_readyReplicas = 0,
      st_currentReplicas = 0,
      st_updatedReplicas = 0,
      st_currentRevision = rev_name currentRevision,
      st_updateRevision = rev_name updateRevision,
      st_collisionCount = Some collisionCount\<rparr>"

text \<open>Lines 370 to 592: the three sweeps, one after the other.\<close>

definition sweeps ::
  "utils \<Rightarrow> env \<Rightarrow> statefulSet \<Rightarrow> statefulSet \<Rightarrow> statefulSet \<Rightarrow> revision \<Rightarrow> revision
   \<Rightarrow> revision list \<Rightarrow> int \<Rightarrow> podptr list \<Rightarrow> podptr option \<Rightarrow> pass \<Rightarrow> pass flow" where
  "sweeps u e sset currentSet updateSet currentRevision updateRevision revisions
     replicaCount condemned firstUnhealthyPod s =
     (let monotonic = \<not> allowsBurst sset;
          cur = rev_name currentRevision;
          upd = rev_name updateRevision
      in case loop (forwardBody u e sset currentSet updateSet cur upd monotonic)
                [0..<length (p_replicas s)] s of
           Continue s1 \<Rightarrow>
             (case loop (condemnedBody e condemned firstUnhealthyPod cur upd monotonic)
                     (rev [0..<length condemned]) s1 of
                Continue s2 \<Rightarrow>
                  updateSweep u e sset cur updateRevision revisions replicaCount s2
              | Return s2 err \<Rightarrow> Return s2 err
              | Panic s2 p \<Rightarrow> Panic s2 p)
         | Return s1 err \<Rightarrow> Return s1 err
         | Panic s1 p \<Rightarrow> Panic s1 p)"

text \<open>
  The function returns \<^verbatim>\<open>(nil, err)\<close> when a revision cannot be applied and
  \<^verbatim>\<open>(&status, err)\<close> afterwards. Line 281 dereferences \<^verbatim>\<open>set.Spec.Replicas\<close>,
  line 283 makes a slice of that length, and the log call of line 357 reads
  \<^verbatim>\<open>firstUnhealthyPod.Name\<close> when \<^verbatim>\<open>unhealthy > 0\<close>.
\<close>

definition updateStatefulSet ::
  "utils \<Rightarrow> env \<Rightarrow> statefulSet \<Rightarrow> revision \<Rightarrow> revision \<Rightarrow> int \<Rightarrow> pod list \<Rightarrow> revision list
   \<Rightarrow> call list \<Rightarrow> (status option \<times> error option) result \<times> call list" where
  "updateStatefulSet u e sset currentRevision updateRevision collisionCount pods revisions
     calls =
     (case ApplyRevision u sset currentRevision of
        Inl err \<Rightarrow> (Returned (None, Some err), calls)
      | Inr currentSet \<Rightarrow>
     (case ApplyRevision u sset updateRevision of
        Inl err \<Rightarrow> (Returned (None, Some err), calls)
      | Inr updateSet \<Rightarrow>
     (case set_replicas sset of
        None \<Rightarrow> (Panicked NilDereference, calls)
      | Some replicaCount \<Rightarrow>
          if replicaCount < 0 then (Panicked MakeSliceLenOutOfRange, calls)
          else
            (let cur = rev_name currentRevision;
                 upd = rev_name updateRevision;
                 pt = partitionPods cur upd replicaCount (snapshot pods)
                        \<lparr>pt_status =
                           seedStatus sset currentRevision updateRevision collisionCount,
                         pt_replicas = replicate (nat replicaCount) None,
                         pt_condemned = []\<rparr>;
                 replicas = fillReplicas u currentSet updateSet cur upd (pt_replicas pt);
                 condemned = sortCondemned (pt_condemned pt);
                 scan = findFirstUnhealthy replicas condemned
             in if us_unhealthy scan > 0 \<and> us_firstPod scan = None
                then (Panicked NilDereference, calls)
                else if set_deletionTimestamp sset \<noteq> None
                then (Returned (Some (pt_status pt), None), calls)
                else (case sweeps u e sset currentSet updateSet currentRevision
                             updateRevision revisions replicaCount condemned
                             (us_firstPod scan)
                             \<lparr>p_status = pt_status pt, p_replicas = replicas,
                              p_calls = calls, p_unavailable = []\<rparr> of
                        Continue s \<Rightarrow> (Returned (Some (p_status s), None), p_calls s)
                      | Return s err \<Rightarrow> (Returned (Some (p_status s), err), p_calls s)
                      | Panic s p \<Rightarrow> (Panicked p, p_calls s))))))"

section \<open>Revisions (lines 187 to 245)\<close>

text \<open>
  The package \<^verbatim>\<open>history\<close> of the Kubernetes library is a collaborator; its pure
  functions follow the contract of section 4.B of the specification: revisions are
  ordered by \<^verbatim>\<open>Revision\<close>, and two revisions are equal when their payloads are.
  A successful \<^verbatim>\<open>UpdateControllerRevision\<close> returns the revision with the new number.
\<close>

definition SortControllerRevisions :: "revision list \<Rightarrow> revision list" where
  "SortControllerRevisions revisions = sort_key rev_revision revisions"

definition EqualRevision :: "revision \<Rightarrow> revision \<Rightarrow> bool" where
  "EqualRevision a b = (rev_data a = rev_data b)"

definition FindEqualRevisions :: "revision list \<Rightarrow> revision \<Rightarrow> revision list" where
  "FindEqualRevisions revisions needle = filter (\<lambda>r. EqualRevision r needle) revisions"

text \<open>Modelled from the spec: \<^verbatim>\<open>nextRevision\<close>, "next = R[-1].Revision + 1 (or 1 if
  empty)" (4.C, step 1).\<close>

definition nextRevision :: "revision list \<Rightarrow> int" where
  "nextRevision revisions = (if revisions = [] then 1 else rev_revision (last revisions) + 1)"

text \<open>Modelled from the spec: \<^verbatim>\<open>newRevision\<close>, "a candidate with revision number
  next and a stable hash-derived name including the collision count" (4.C, step 1).\<close>

definition newRevision :: "utils \<Rightarrow> statefulSet \<Rightarrow> int \<Rightarrow> int \<Rightarrow> error + revision" where
  "newRevision u sset revisionNumber collisionCount =
     (case revisionPayload u sset collisionCount of
        Inl err \<Rightarrow> Inl err
      | Inr (name, payload) \<Rightarrow>
          Inr \<lparr>rev_name = name, rev_revision = revisionNumber, rev_data = payload\<rparr>)"

text \<open>Lines 197 to 200: the local copy of \<^verbatim>\<open>set.Status.CollisionCount\<close>.\<close>

definition collisionCountOf :: "statefulSet \<Rightarrow> int" where
  "collisionCountOf sset =
     (case st_collisionCount (set_status sset) of None \<Rightarrow> 0 | Some c \<Rightarrow> c)"

text \<open>Lines 233 to 237: the last revision of the list that carries the name.\<close>

definition findCurrent :: "string \<Rightarrow> revision list \<Rightarrow> revision option" where
  "findCurrent name revisions =
     foldl (\<lambda>found r. if rev_name r = name then Some r else found) None revisions"

definition getStatefulSetRevisions ::
  "utils \<Rightarrow> env \<Rightarrow> statefulSet \<Rightarrow> revision list \<Rightarrow> call list
   \<Rightarrow> (error + revision \<times> revision \<times> int) \<times> call list" where
  "getStatefulSetRevisions u e sset revisions0 calls =
     (let revisions = SortControllerRevisions revisions0;
          collisionCount = collisionCountOf sset
      in case newRevision u sset (nextRevision revisions) collisionCount of
           Inl err \<Rightarrow> (Inl err, calls)
         | Inr candidate \<Rightarrow>
             (let equalRevisions = FindEqualRevisions revisions candidate;
                  chosen =
                    (if equalRevisions \<noteq> [] \<and>
                        EqualRevision (last revisions) (last equalRevisions)
                     then (Inr (last revisions, collisionCount), calls)
                     else if equalRevisions \<noteq> []
                     then (case invoke e (UpdateControllerRevision (last equalRevisions)
                                            (rev_revision candidate)) calls of
                             (Some err, cs) \<Rightarrow> (Inl err, cs)
                           | (None, cs) \<Rightarrow>
                               (Inr ((last equalRevisions)
                                       \<lparr>rev_revision := rev_revision candidate\<rparr>,
                                     collisionCount), cs))
                     else (case invoke e (CreateControllerRevision candidate collisionCount)
                                  calls of
                             (Some err, cs) \<Rightarrow> (Inl err, cs)
                           | (None, cs) \<Rightarrow>
                               (Inr (persisted e calls candidate collisionCount), cs)))
              in case chosen of
                   (Inl err, cs) \<Rightarrow> (Inl err, cs)
                 | (Inr (updateRevision, collisionCount'), cs) \<Rightarrow>
                     (Inr (case findCurrent (st_currentRevision (set_status sset))
                                  revisions of
                             None \<Rightarrow> updateRevision
                           | Some r \<Rightarrow> r,
                           updateRevision, collisionCount'), cs)))"

section \<open>History (lines 148 to 179) and status (lines 628 to 647)\<close>

fun deleteRevisions ::
  "env \<Rightarrow> revision option list \<Rightarrow> call list \<Rightarrow> error option \<times> call list" where
  "deleteRevisions e [] cs = (None, cs)"
| "deleteRevisions e (r # rest) cs =
     (case invoke e (DeleteControllerRevision r) cs of
        (Some err, cs') \<Rightarrow> (Some err, cs')
      | (None, cs') \<Rightarrow> deleteRevisions e rest cs')"

definition isLive :: "pod list \<Rightarrow> revision \<Rightarrow> revision \<Rightarrow> string \<Rightarrow> bool" where
  "isLive pods current update name =
     (name = rev_name current \<or> name = rev_name update \<or>
      name \<in> set (map getPodRevision pods))"

text \<open>
  \<^verbatim>\<open>history\<close> has the capacity \<^verbatim>\<open>len(revisions)\<close>, so the slice expression of line
  172 panics only beyond that; within the capacity it yields nil pointers past the
  length, which are handed to the store.
\<close>

definition truncateHistory ::
  "env \<Rightarrow> statefulSet \<Rightarrow> pod list \<Rightarrow> revision list \<Rightarrow> revision \<Rightarrow> revision \<Rightarrow> call list
   \<Rightarrow> error option result \<times> call list" where
  "truncateHistory e sset pods revisions current update calls =
     (let history = filter (\<lambda>r. \<not> isLive pods current update (rev_name r)) revisions;
          historyLen = int (length history)
      in case set_revisionHistoryLimit sset of
           None \<Rightarrow> (Panicked NilDereference, calls)
         | Some historyLimit \<Rightarrow>
             if historyLen \<le> historyLimit then (Returned None, calls)
             else if int (length revisions) < historyLen - historyLimit
             then (Panicked SliceBoundsOutOfRange, calls)
             else (case deleteRevisions e
                          (take (nat (historyLen - historyLimit))
                             (map Some history @
                              replicate (length revisions - length history) None))
                          calls of
                     (err, cs) \<Rightarrow> (Returned err, cs)))"

definition updateStatefulSetStatus ::
  "utils \<Rightarrow> env \<Rightarrow> statefulSet \<Rightarrow> status \<Rightarrow> call list \<Rightarrow> error option \<times> call list" where
  "updateStatefulSetStatus u e sset st calls =
     (let st' = completeRollingUpdate u sset st
      in if \<not> inconsistentStatus u sset st' then (None, calls)
         else invoke e (UpdateStatefulSetStatus st') calls)"

section \<open>UpdateStatefulSet (lines 77 to 120)\<close>

definition UpdateStatefulSet ::
  "utils \<Rightarrow> env \<Rightarrow> statefulSet \<Rightarrow> pod list \<Rightarrow> error option result \<times> call list" where
  "UpdateStatefulSet u e sset pods =
     (case listed e of
        Inl err \<Rightarrow> (Returned (Some err), [])
      | Inr revisions0 \<Rightarrow>
          (let revisions = SortControllerRevisions revisions0
           in case getStatefulSetRevisions u e sset revisions [] of
                (Inl err, cs) \<Rightarrow> (Returned (Some err), cs)
              | (Inr (currentRevision, updateRevision, collisionCount), cs) \<Rightarrow>
                  (case updateStatefulSet u e sset currentRevision updateRevision
                          collisionCount pods revisions cs of
                     (Panicked p, cs1) \<Rightarrow> (Panicked p, cs1)
                   | (Returned (st, Some err), cs1) \<Rightarrow> (Returned (Some err), cs1)
                   | (Returned (None, None), cs1) \<Rightarrow> (Panicked NilDereference, cs1)
                   | (Returned (Some st, None), cs1) \<Rightarrow>
                       (case updateStatefulSetStatus u e sset st cs1 of
                          (Some err, cs2) \<Rightarrow> (Returned (Some err), cs2)
                        | (None, cs2) \<Rightarrow>
                            truncateHistory e sset pods revisions currentRevision
                              updateRevision cs2))))"

section \<open>Notions the properties are stated with\<close>

text \<open>
  The status that section 4.D of the specification describes for a snapshot: every pod
  counts as a replica, running and ready pods as ready, and created pods that are not
  terminating as current or updated by their revision label.
\<close>

definition observedStatus ::
  "statefulSet \<Rightarrow> revision \<Rightarrow> revision \<Rightarrow> int \<Rightarrow> pod list \<Rightarrow> status" where
  "observedStatus sset currentRevision updateRevision collisionCount pods =
     \<lparr>st_observedGeneration = set_generation sset,
      st_replicas = int (length pods),
      st_readyReplicas = int (length (filter isRunningAndReady pods)),
      st_currentReplicas =
        int (length (filter (\<lambda>p. isCreated p \<and> \<not> isTerminating p \<and>
                                   getPodRevision p = rev_name currentRevision) pods)),
      st_updatedReplicas =
        int (length (filter (\<lambda>p. isCreated p \<and> \<not> isTerminating p \<and>
                                   getPodRevision p = rev_name updateRevision) pods)),
      st_currentRevision = rev_name currentRevision,
      st_updateRevision = rev_name updateRevision,
      st_collisionCount = Some collisionCount\<rparr>"

definition tally :: "string \<Rightarrow> string \<Rightarrow> pod list \<Rightarrow> status \<Rightarrow> status" where
  "tally cur upd ps st =
     st\<lparr>st_replicas := st_replicas st + int (length ps),
        st_readyReplicas := st_readyReplicas st + int (length (filter isRunningAndReady ps)),
        st_currentReplicas := st_currentReplicas st +
          int (length (filter (\<lambda>p. isCreated p \<and> \<not> isTerminating p \<and>
                                     getPodRevision p = cur) ps)),
        st_updatedReplicas := st_updatedReplicas st +
          int (length (filter (\<lambda>p. isCreated p \<and> \<not> isTerminating p \<and>
                                     getPodRevision p = upd) ps))\<rparr>"

text \<open>The last pod of a list of pointers whose name carries the ordinal.\<close>

definition lastWithOrdinal :: "nat \<Rightarrow> podptr list \<Rightarrow> podptr option" where
  "lastWithOrdinal ord pps =
     (case filter (\<lambda>pp. getOrdinal (snd pp) = int ord) pps of
        [] \<Rightarrow> None
      | x # xs \<Rightarrow> Some (last (x # xs)))"

text \<open>What the scan for the first unhealthy pod keeps true as long as every unhealthy
  pod it meets has an ordinal below the initial value of \<^verbatim>\<open>firstUnhealthyOrdinal\<close>.\<close>

definition scanOk :: "unhealthyScan \<Rightarrow> bool" where
  "scanOk us =
     (0 \<le> us_unhealthy us \<and>
      (if us_firstPod us = None
       then us_firstOrdinal us = MaxInt32 \<and> us_unhealthy us = 0 else True))"

section \<open>Concrete inputs\<close>

text \<open>
  A set named \<open>web\<close>, its pods and collaborators that never fail. The rendering of a
  pod for an empty slot follows section 4.E (b) of the specification: the current
  revision below the partition, the update revision from it on.
\<close>

definition digitChar :: "nat \<Rightarrow> char" where
  "digitChar d = ''0123456789'' ! d"

fun decimal :: "nat \<Rightarrow> string" where
  "decimal n = (if n < 10 then [digitChar n] else decimal (n div 10) @ [digitChar (n mod 10)])"

declare decimal.simps [simp del]

definition web_pod :: "string \<Rightarrow> string \<Rightarrow> pod" where
  "web_pod name revisionName =
     \<lparr>pod_name = name, pod_resourceVersion = ''1'', pod_deletionTimestamp = None,
      pod_phase = Running, pod_ready = True, pod_revision = revisionName,
      pod_inPlaceGate = False, pod_inPlaceReady = False\<rparr>"

definition web_render :: "statefulSet \<Rightarrow> statefulSet \<Rightarrow> string \<Rightarrow> string \<Rightarrow> int \<Rightarrow> pod" where
  "web_render currentSet updateSet cur upd ord =
     \<lparr>pod_name = set_name currentSet @ ''-'' @ decimal (nat ord),
      pod_resourceVersion = [], pod_deletionTimestamp = None,
      pod_phase = PhaseUnset, pod_ready = False,
      pod_revision =
        (if ord < (case set_rollingUpdate currentSet of
                     None \<Rightarrow> 0
                   | Some ru \<Rightarrow> (case ru_partition ru of None \<Rightarrow> 0 | Some k \<Rightarrow> k))
         then cur else upd),
      pod_inPlaceGate = False, pod_inPlaceReady = False\<rparr>"

definition web_utils :: utils where
  "web_utils =
     \<lparr>revisionPayload = (\<lambda>sset c.
        Inr (set_name sset @ ''-'' @ set_template sset, set_template sset)),
      ApplyRevision = (\<lambda>sset r. Inr (sset\<lparr>set_template := rev_data r\<rparr>)),
      renderPod = web_render,
      identityMatches = (\<lambda>sset p. True),
      storageMatches = (\<lambda>sset p. True),
      shouldUpdateInPlaceReady = (\<lambda>p. False),
      checkInPlaceUpdateCompleted = (\<lambda>p. None),
      shouldDoInPlaceUpdate = (\<lambda>sset r name rs. (False, None)),
      completeRollingUpdate = (\<lambda>sset st. st),
      inconsistentStatus = (\<lambda>sset st. st \<noteq> set_status sset)\<rparr>"

definition web_v1 :: revision where
  "web_v1 = \<lparr>rev_name = ''web-v1'', rev_revision = 1, rev_data = ''v1''\<rparr>"

definition web_v2 :: revision where
  "web_v2 = \<lparr>rev_name = ''web-v2'', rev_revision = 2, rev_data = ''v2''\<rparr>"

definition web_v3 :: revision where
  "web_v3 = \<lparr>rev_name = ''web-v3'', rev_revision = 3, rev_data = ''v3''\<rparr>"

definition web_env :: env where
  "web_env =
     \<lparr>reply = (\<lambda>cs c. None),
      listed = Inr [web_v1, web_v2],
      persisted = (\<lambda>cs r c. (r, c))\<rparr>"

definition web_set :: statefulSet where
  "web_set =
     \<lparr>set_name = ''web'', set_generation = 2, set_deletionTimestamp = None,
      set_replicas = Some 3, set_podManagementPolicy = OrderedReady,
      set_strategyType = RollingUpdateStatefulSetStrategyType,
      set_rollingUpdate =
        Some \<lparr>ru_partition = Some 0, ru_maxUnavailable = Some (FromInt 1),
              ru_podUpdatePolicy = RecreatePolicy\<rparr>,
      set_revisionHistoryLimit = Some 1,
      set_template = ''v2'',
      set_status =
        \<lparr>st_observedGeneration = 1, st_replicas = 3, st_readyReplicas = 3,
         st_currentReplicas = 3, st_updatedReplicas = 0,
         st_currentRevision = ''web-v1'', st_updateRevision = ''web-v1'',
         st_collisionCount = None\<rparr>\<rparr>"

text \<open>The set after its template was changed back to the payload of the first
  revision, while the pods run the second.\<close>

definition web_rollback :: statefulSet where
  "web_rollback =
     web_set\<lparr>set_template := ''v1'',
              set_status := (set_status web_set)\<lparr>st_currentRevision := ''web-v2''\<rparr>\<rparr>"

section \<open>Notions for the calls of a pass\<close>

text \<open>The state a loop ends in, however it ends.\<close>

definition flowState :: "'s flow \<Rightarrow> 's" where
  "flowState f = (case f of Continue s \<Rightarrow> s | Return s err \<Rightarrow> s | Panic s p \<Rightarrow> s)"

text \<open>The pod whose pointer a call of the Pod Controller is given;
  \<^verbatim>\<open>UpdateStatefulPod\<close> is given a deep copy.\<close>

definition callTarget :: "call \<Rightarrow> podptr option" where
  "callTarget c =
     (case c of
        CreateStatefulPod pp \<Rightarrow> Some pp
      | DeleteStatefulPod pp \<Rightarrow> Some pp
      | UpdateStatefulPodCondition pp b \<Rightarrow> Some pp
      | InPlaceUpdateStatefulPod pp spec \<Rightarrow> Some pp
      | _ \<Rightarrow> None)"

text \<open>Every call of the list is among \<open>before\<close> or is given a pod that satisfies
  \<open>Q\<close>.\<close>

definition callsOn :: "(podptr \<Rightarrow> bool) \<Rightarrow> call list \<Rightarrow> call list \<Rightarrow> bool" where
  "callsOn Q before cs =
     list_all (\<lambda>c. c \<in> set before \<or> (case callTarget c of None \<Rightarrow> True | Some pp \<Rightarrow> Q pp)) cs"

definition targetsInv :: "(podptr \<Rightarrow> bool) \<Rightarrow> call list \<Rightarrow> pass \<Rightarrow> bool" where
  "targetsInv Q before s = (list_all Q (p_replicas s) \<and> callsOn Q before (p_calls s))"

text \<open>The calls of \<open>cs'\<close> start with those of \<open>cs\<close>: calls are only added.\<close>

definition extends :: "call list \<Rightarrow> call list \<Rightarrow> bool" where
  "extends cs cs' = (take (length cs) cs' = cs)"

text \<open>The calls issued between a state and a later one.\<close>

definition issued :: "pass \<Rightarrow> pass \<Rightarrow> call list" where
  "issued s s' = drop (length (p_calls s)) (p_calls s')"

definition isCreate :: "call \<Rightarrow> bool" where
  "isCreate c = (case c of CreateStatefulPod pp \<Rightarrow> True | _ \<Rightarrow> False)"

definition isDelete :: "call \<Rightarrow> bool" where
  "isDelete c = (case c of DeleteStatefulPod pp \<Rightarrow> True | _ \<Rightarrow> False)"

text \<open>A pod that lets the forward sweep of an OrderedReady set pass on: created, not
  terminating, running and ready.\<close>

definition settled :: "pod \<Rightarrow> bool" where
  "settled p = (isCreated p \<and> \<not> isTerminating p \<and> isRunningAndReady p)"

text \<open>The delete of lines 556 to 567, from calls \<open>cs\<close> on.\<close>

definition deleteForUpdate :: "env \<Rightarrow> string \<Rightarrow> podptr \<Rightarrow> call list \<Rightarrow> pass \<Rightarrow> pass flow" where
  "deleteForUpdate e cur rp cs s =
     (case reply e cs (DeleteStatefulPod rp) of
        Some err \<Rightarrow> Return (s\<lparr>p_calls := cs @ [DeleteStatefulPod rp]\<rparr>) (Some err)
      | None \<Rightarrow>
          Continue (s\<lparr>p_calls := cs @ [DeleteStatefulPod rp],
                      p_status := (if getPodRevision (snd rp) = cur
                                   then (p_status s)\<lparr>st_currentReplicas :=
                                                        st_currentReplicas (p_status s) - 1\<rparr>
                                   else p_status s)\<rparr>))"

text \<open>What a create of the forward sweep looks like: the last call, on the pod of slot
  \<open>k\<close>, below which every pod is settled.\<close>

definition createdAt ::
  "env \<Rightarrow> pass \<Rightarrow> call list \<Rightarrow> error option \<Rightarrow> podptr \<Rightarrow> nat \<Rightarrow> bool" where
  "createdAt e s cs err pp k =
     (k < length (p_replicas s) \<and>
      (\<forall>i < k. settled (snd (p_replicas s ! i))) \<and>
      cs = butlast cs @ [CreateStatefulPod pp] \<and>
      filter isCreate (butlast cs) = filter isCreate (p_calls s) \<and>
      err = reply e (butlast cs) (CreateStatefulPod pp) \<and>
      \<not> isCreated (snd pp) \<and>
      (pp = p_replicas s ! k \<or> isFailed (snd (p_replicas s ! k)) \<and> fst pp = Recreated k))"


text \<open>The error is the reply to the last call of \<open>cs\<close>, a call added to \<open>before\<close>.\<close>

definition repliedAfter :: "env \<Rightarrow> call list \<Rightarrow> call list \<Rightarrow> error \<Rightarrow> bool" where
  "repliedAfter e before cs err =
     (cs \<noteq> [] \<and> extends before (butlast cs) \<and> reply e (butlast cs) (last cs) = Some err)"

text \<open>A flow that returns an error returns the reply to its last call.\<close>

definition errorReplied :: "env \<Rightarrow> call list \<Rightarrow> pass flow \<Rightarrow> bool" where
  "errorReplied e before f =
     (case f of
        Return s (Some err) \<Rightarrow> repliedAfter e before (p_calls s) err
      | _ \<Rightarrow> True)"

text \<open>Modelled from the spec: \<^verbatim>\<open>identityMatches\<close>, "the pod's name equals
  \<^verbatim>\<open><set>-<ord>\<close>" (4.A); the namespace and the labels are not part of the pod of the
  model. \<open>web_strict\<close> are the helpers of \<open>web\<close> with this check of the identity.\<close>

definition nameMatches :: "statefulSet \<Rightarrow> pod \<Rightarrow> bool" where
  "nameMatches sset p =
     (0 \<le> getOrdinal p \<and> pod_name p = set_name sset @ ''-'' @ decimal (nat (getOrdinal p)))"

definition web_strict :: utils where
  "web_strict = web_utils\<lparr>identityMatches := nameMatches\<rparr>"

text \<open>A Pod Controller that rejects every write.\<close>

definition web_down :: env where
  "web_down = web_env\<lparr>reply := (\<lambda>cs c. Some (Error ''rejected''))\<rparr>"

text \<open>The calls of \<^verbatim>\<open>inPlaceUpdatePod\<close> (lines 595 to 623): the condition update to
  False and the patch.\<close>

definition inPlacePath :: "call \<Rightarrow> bool" where
  "inPlacePath c =
     (case c of
        UpdateStatefulPodCondition pp ready \<Rightarrow> \<not> ready
      | InPlaceUpdateStatefulPod pp spec \<Rightarrow> True
      | _ \<Rightarrow> False)"

text \<open>No call of the list was answered with an error, the calls of
  \<^verbatim>\<open>inPlaceUpdatePod\<close> apart.\<close>

definition quiet :: "env \<Rightarrow> call list \<Rightarrow> bool" where
  "quiet e cs =
     list_all (\<lambda>i. reply e (take i cs) (cs ! i) = None \<or> inPlacePath (cs ! i)) [0..<length cs]"

text \<open>The last call of the list was answered with the error, and no call before it,
  the calls of \<^verbatim>\<open>inPlaceUpdatePod\<close> apart.\<close>

definition failing :: "env \<Rightarrow> call list \<Rightarrow> error \<Rightarrow> bool" where
  "failing e cs err =
     (cs \<noteq> [] \<and> quiet e (butlast cs) \<and> reply e (butlast cs) (last cs) = Some err)"

text \<open>A flow that returns an error returns the error of its last call, at which it
  stopped; any other flow has met no error.\<close>

definition abortsOnError :: "env \<Rightarrow> pass flow \<Rightarrow> bool" where
  "abortsOnError e f =
     (case f of
        Continue s \<Rightarrow> quiet e (p_calls s)
      | Return s None \<Rightarrow> quiet e (p_calls s)
      | Return s (Some err) \<Rightarrow> failing e (p_calls s) err
      | Panic s p \<Rightarrow> quiet e (p_calls s))"

text \<open>
  The set \<open>web\<close> with one replica and in-place update where possible, helpers that
  find every update fit for it, and a Pod Controller that rejects the calls of
  \<^verbatim>\<open>inPlaceUpdatePod\<close> and no other.
\<close>

definition web_patching :: statefulSet where
  "web_patching =
     web_set\<lparr>set_replicas := Some 1,
              set_rollingUpdate :=
                Some \<lparr>ru_partition = Some 0, ru_maxUnavailable = Some (FromInt 1),
                      ru_podUpdatePolicy = InPlaceIfPossible\<rparr>\<rparr>"

definition web_inplace :: utils where
  "web_inplace =
     web_utils\<lparr>shouldDoInPlaceUpdate :=
                  (\<lambda>sset r name rs. (True, Some [(''web'', rev_data r)]))\<rparr>"

definition web_conflict :: env where
  "web_conflict =
     web_env\<lparr>reply := (\<lambda>cs c. if inPlacePath c then Some (Error ''conflict'') else None)\<rparr>"
section \<open>The three ways of updatePod\<close>

lemma updatePod_recreate:
  assumes "\<not> fst (shouldDoInPlaceUpdate u sset updateRevision (getPodRevision (snd rp)) revisions)"
  shows "updatePod u e sset cur updateRevision revisions rp s
           = deleteForUpdate e cur rp (p_calls s) s"
  using assms
  by (simp add: updatePod_def deleteForUpdate_def Let_def invoke_def split: option.split)

lemma updatePod_skip:
  assumes "fst (shouldDoInPlaceUpdate u sset updateRevision (getPodRevision (snd rp)) revisions)"
    and "checkInPlaceUpdateCompleted u (snd rp) \<noteq> None"
  shows "updatePod u e sset cur updateRevision revisions rp s = Continue s"
  using assms by (simp add: updatePod_def Let_def)

lemma updatePod_inPlace:
  assumes inpl: "fst (shouldDoInPlaceUpdate u sset updateRevision (getPodRevision (snd rp)) revisions)"
    and complete: "checkInPlaceUpdateCompleted u (snd rp) = None"
    and att: "inPlaceUpdatePod e rp
                (snd (shouldDoInPlaceUpdate u sset updateRevision (getPodRevision (snd rp))
                        revisions)) (p_calls s) = (updateErr, cs)"
  shows "updatePod u e sset cur updateRevision revisions rp s
           = (if updateErr \<noteq> None \<and> \<not> isInPlaceOnly sset
              then deleteForUpdate e cur rp cs s
              else Continue (s\<lparr>p_calls := cs,
                              p_status := (if getPodRevision (snd rp) = cur
                                           then (p_status s)\<lparr>st_currentReplicas :=
                                                   st_currentReplicas (p_status s) - 1\<rparr>
                                           else p_status s)\<rparr>))"
  using inpl complete
  by (simp add: updatePod_def deleteForUpdate_def Let_def att invoke_def split: option.split)

lemma inPlaceUpdatePod_calls:
  "inPlaceUpdatePod e rp spec cs = (updateErr, cs') \<Longrightarrow>
   (cs' = cs @ [UpdateStatefulPodCondition rp False] \<and>
    updateErr = reply e cs (UpdateStatefulPodCondition rp False) \<and> updateErr \<noteq> None) \<or>
   (cs' = cs @ [UpdateStatefulPodCondition rp False, InPlaceUpdateStatefulPod rp spec] \<and>
    reply e cs (UpdateStatefulPodCondition rp False) = None \<and>
    updateErr = reply e (cs @ [UpdateStatefulPodCondition rp False])
                  (InPlaceUpdateStatefulPod rp spec))"
  by (auto simp: inPlaceUpdatePod_def invoke_def split: option.splits)

text \<open>A rule to show a property of the state \<open>updatePod\<close> ends in, from what it does
  to its calls.\<close>

lemma updatePod_state_rule:
  assumes skip: "Q s"
    and deleted: "\<And>cs st. cs \<in> {p_calls s,
                       p_calls s @ [UpdateStatefulPodCondition rp False],
                       p_calls s @ [UpdateStatefulPodCondition rp False,
                                    InPlaceUpdateStatefulPod rp
                                      (snd (shouldDoInPlaceUpdate u sset updateRevision
                                              (getPodRevision (snd rp)) revisions))]}
                   \<Longrightarrow> Q (s\<lparr>p_calls := cs @ [DeleteStatefulPod rp], p_status := st\<rparr>) \<and>
                       Q (s\<lparr>p_calls := cs @ [DeleteStatefulPod rp]\<rparr>)"
    and patched: "\<And>cs st. cs \<in> {p_calls s @ [UpdateStatefulPodCondition rp False],
                       p_calls s @ [UpdateStatefulPodCondition rp False,
                                    InPlaceUpdateStatefulPod rp
                                      (snd (shouldDoInPlaceUpdate u sset updateRevision
                                              (getPodRevision (snd rp)) revisions))]}
                   \<Longrightarrow> Q (s\<lparr>p_calls := cs, p_status := st\<rparr>)"
  shows "Q (flowState (updatePod u e sset cur updateRevision revisions rp s))"
proof -
  let ?d = "shouldDoInPlaceUpdate u sset updateRevision (getPodRevision (snd rp)) revisions"
  have del: "Q (flowState (deleteForUpdate e cur rp cs s))"
    if "cs \<in> {p_calls s, p_calls s @ [UpdateStatefulPodCondition rp False],
                p_calls s @ [UpdateStatefulPodCondition rp False,
                             InPlaceUpdateStatefulPod rp (snd ?d)]}" for cs
    using deleted[OF that]
    by (simp add: deleteForUpdate_def flowState_def split: option.split)
  show ?thesis
  proof (cases "fst ?d")
    case False
    then show ?thesis using del[of "p_calls s"] by (simp add: updatePod_recreate)
  next
    case inpl: True
    show ?thesis
    proof (cases "checkInPlaceUpdateCompleted u (snd rp)")
      case (Some err)
      with inpl show ?thesis using skip by (simp add: updatePod_skip flowState_def)
    next
      case None
      obtain updateErr cs where att: "inPlaceUpdatePod e rp (snd ?d) (p_calls s) = (updateErr, cs)"
        by (cases "inPlaceUpdatePod e rp (snd ?d) (p_calls s)")
      from inPlaceUpdatePod_calls[OF att]
      have cs: "cs \<in> {p_calls s @ [UpdateStatefulPodCondition rp False],
                        p_calls s @ [UpdateStatefulPodCondition rp False,
                                     InPlaceUpdateStatefulPod rp (snd ?d)]}"
        by auto
      show ?thesis
        using del[of cs] patched[OF cs] cs
        by (simp add: updatePod_inPlace[OF inpl None att] flowState_def)
    qed
  qed
qed


section \<open>The status of the snapshot\<close>

lemma placePod_status: "pt_status (placePod n pp pt) = pt_status pt"
  by (simp add: placePod_def Let_def)

lemma tally_Nil: "tally cur upd [] st = st"
  by (simp add: tally_def)

lemma tally_Cons: "tally cur upd (p # ps) st = tally cur upd ps (countPod cur upd p st)"
  by (simp add: tally_def countPod_def Let_def)

lemma partitionPods_status:
  "pt_status (partitionPods cur upd n pps pt) = tally cur upd (map snd pps) (pt_status pt)"
proof (induction pps arbitrary: pt)
  case Nil
  show ?case by (simp add: tally_Nil)
next
  case (Cons pp pps)
  show ?case by (simp add: Cons.IH placePod_status tally_Cons)
qed

lemma snd_snapshot: "map snd (snapshot pods) = pods"
  by (simp add: snapshot_def)

lemma tally_seed:
  "tally (rev_name c) (rev_name up) pods (seedStatus sset c up cc)
     = observedStatus sset c up cc pods"
  by (simp add: tally_def seedStatus_def observedStatus_def)

section \<open>Where the pods of the snapshot are placed\<close>

lemma placePod_length: "length (pt_replicas (placePod n pp pt)) = length (pt_replicas pt)"
  by (simp add: placePod_def Let_def)

lemma partitionPods_length:
  "length (pt_replicas (partitionPods cur upd n pps pt)) = length (pt_replicas pt)"
  by (induction pps arbitrary: pt) (simp_all add: placePod_length)

lemma placePod_condemned:
  "pt_condemned (placePod n pp pt) =
     pt_condemned pt @
     (if n \<le> getOrdinal (snd pp) \<and> \<not> (0 \<le> getOrdinal (snd pp) \<and> getOrdinal (snd pp) < n)
      then [pp] else [])"
  by (simp add: placePod_def Let_def)

lemma partitionPods_condemned:
  "0 \<le> n \<Longrightarrow> pt_condemned (partitionPods cur upd n pps pt) =
     pt_condemned pt @ filter (\<lambda>pp. n \<le> getOrdinal (snd pp)) pps"
  by (induction pps arbitrary: pt) (auto simp: placePod_condemned)

lemma lastWithOrdinal_Nil: "lastWithOrdinal ord [] = None"
  by (simp add: lastWithOrdinal_def)

lemma lastWithOrdinal_Cons:
  "lastWithOrdinal ord (pp # pps) =
     (case lastWithOrdinal ord pps of
        Some q \<Rightarrow> Some q
      | None \<Rightarrow> if getOrdinal (snd pp) = int ord then Some pp else None)"
  by (simp add: lastWithOrdinal_def split: list.splits)

lemma placePod_nth:
  "length (pt_replicas pt) = nat n \<Longrightarrow> ord < nat n \<Longrightarrow>
   pt_replicas (placePod n pp pt) ! ord =
     (if getOrdinal (snd pp) = int ord then Some pp else pt_replicas pt ! ord)"
  by (auto simp: placePod_def Let_def nth_list_update)

lemma partitionPods_nth:
  "length (pt_replicas pt) = nat n \<Longrightarrow> ord < nat n \<Longrightarrow>
   pt_replicas (partitionPods cur upd n pps pt) ! ord =
     (case lastWithOrdinal ord pps of None \<Rightarrow> pt_replicas pt ! ord | Some pp \<Rightarrow> Some pp)"
proof (induction pps arbitrary: pt)
  case Nil
  show ?case by (simp add: lastWithOrdinal_Nil)
next
  case (Cons pp pps)
  let ?pt = "placePod n pp (pt\<lparr>pt_status := countPod cur upd (snd pp) (pt_status pt)\<rparr>)"
  have len: "length (pt_replicas ?pt) = nat n" using Cons.prems by (simp add: placePod_length)
  have "pt_replicas (partitionPods cur upd n pps ?pt) ! ord =
          (case lastWithOrdinal ord pps of None \<Rightarrow> pt_replicas ?pt ! ord | Some q \<Rightarrow> Some q)"
    using Cons.IH[OF len Cons.prems(2)] .
  moreover have "pt_replicas ?pt ! ord =
          (if getOrdinal (snd pp) = int ord then Some pp else pt_replicas pt ! ord)"
    using Cons.prems by (simp add: placePod_nth)
  ultimately show ?case
    by (simp add: lastWithOrdinal_Cons split: option.splits)
qed

lemma lastWithOrdinal_mem:
  assumes "lastWithOrdinal ord pps = Some pp"
  shows "pp \<in> set pps \<and> getOrdinal (snd pp) = int ord"
proof -
  let ?f = "filter (\<lambda>pp. getOrdinal (snd pp) = int ord) pps"
  from assms have ne: "?f \<noteq> []" and l: "pp = last ?f"
    by (auto simp: lastWithOrdinal_def split: list.splits)
  from ne l have "pp \<in> set ?f" using last_in_set by blast
  then show ?thesis by simp
qed

lemma placePod_slots:
  assumes "Some q \<in> set (pt_replicas (placePod n pp pt))"
  shows "Some q \<in> set (pt_replicas pt) \<or> q = pp"
proof -
  have "set ((pt_replicas pt)[k := Some pp]) \<subseteq> insert (Some pp) (set (pt_replicas pt))" for k
    by (rule set_update_subset_insert)
  with assms show ?thesis by (auto simp: placePod_def Let_def split: if_splits)
qed

lemma partitionPods_slots:
  "Some q \<in> set (pt_replicas (partitionPods cur upd n pps pt)) \<Longrightarrow>
   Some q \<in> set (pt_replicas pt) \<or> q \<in> set pps"
proof (induction pps arbitrary: pt)
  case Nil
  then show ?case by simp
next
  case (Cons pp pps)
  let ?pt = "pt\<lparr>pt_status := countPod cur upd (snd pp) (pt_status pt)\<rparr>"
  from Cons.IH[of "placePod n pp ?pt"] Cons.prems
  have "Some q \<in> set (pt_replicas (placePod n pp ?pt)) \<or> q \<in> set pps"
    by simp
  then show ?case
    using placePod_slots[of q n pp ?pt] by auto
qed

lemma fillReplicas_elems:
  "pp \<in> set (fillReplicas u cs us c up slots) \<Longrightarrow>
   Some pp \<in> set slots \<or>
   (\<exists>i < length slots. pp = (Rendered i, newVersionedStatefulSetPod u cs us c up (int i)))"
proof -
  assume "pp \<in> set (fillReplicas u cs us c up slots)"
  then obtain i where i: "i < length slots"
    and pp: "pp = (case slots ! i of
                     None \<Rightarrow> (Rendered i, newVersionedStatefulSetPod u cs us c up (int i))
                   | Some q \<Rightarrow> q)"
    by (auto simp: fillReplicas_def in_set_enumerate_eq)
  show ?thesis
  proof (cases "slots ! i")
    case None
    with i pp show ?thesis by auto
  next
    case (Some q)
    with i have "Some q \<in> set slots" by (metis nth_mem)
    with Some pp show ?thesis by simp
  qed
qed

lemma fillReplicas_length: "length (fillReplicas u cs us c up slots) = length slots"
  by (simp add: fillReplicas_def)

lemma snapshot_elems: "pp \<in> set (snapshot pods) \<Longrightarrow> snd pp \<in> set pods"
  by (cases pp) (auto simp: snapshot_def dest: set_zip_rightD)

lemma sortCondemned_set: "set (sortCondemned xs) = set xs"
  by (simp add: sortCondemned_def)

section \<open>The first unhealthy pod\<close>

lemma scanPod_ok:
  "scanOk us \<Longrightarrow> (\<not> isHealthy (snd pp) \<Longrightarrow> getOrdinal (snd pp) < MaxInt32)
   \<Longrightarrow> scanOk (scanPod us pp)"
  by (auto simp: scanOk_def scanPod_def Let_def split: if_splits)

lemma foldl_scanPod_ok:
  "scanOk us \<Longrightarrow>
   (\<And>pp. pp \<in> set pps \<Longrightarrow> \<not> isHealthy (snd pp) \<Longrightarrow> getOrdinal (snd pp) < MaxInt32)
   \<Longrightarrow> scanOk (foldl scanPod us pps)"
proof (induction pps arbitrary: us)
  case Nil
  then show ?case by simp
next
  case (Cons pp pps)
  have "scanOk (scanPod us pp)" using Cons.prems by (intro scanPod_ok) auto
  then show ?case using Cons.prems by (simp add: Cons.IH)
qed

lemma scanOk_init:
  "scanOk \<lparr>us_unhealthy = 0, us_firstOrdinal = MaxInt32, us_firstPod = None\<rparr>"
  by (simp add: scanOk_def)

lemma findFirstUnhealthy_ok:
  assumes "\<And>pp. pp \<in> set replicas \<union> set condemned \<Longrightarrow> \<not> isHealthy (snd pp)
            \<Longrightarrow> getOrdinal (snd pp) < MaxInt32"
  shows "scanOk (findFirstUnhealthy replicas condemned)"
  unfolding findFirstUnhealthy_def
  by (intro foldl_scanPod_ok scanOk_init) (use assms in auto)

lemma scanOk_no_panic: "scanOk us \<Longrightarrow> \<not> (us_unhealthy us > 0 \<and> us_firstPod us = None)"
  by (auto simp: scanOk_def split: if_splits)

section \<open>Evaluating the concrete inputs\<close>

lemma decimal_digit: "n < 10 \<Longrightarrow> decimal n = [digitChar n]"
  by (simp add: decimal.simps[of n])

lemma less_3_cases: "i < 3 \<Longrightarrow> i = 0 \<or> i = 1 \<or> i = (2::nat)"
  by arith

section \<open>Loops\<close>

lemma loop_state_invariant:
  assumes "I s"
    and "\<And>i s. i \<in> set xs \<Longrightarrow> I s \<Longrightarrow> I (flowState (body i s))"
  shows "I (flowState (loop body xs s))"
  using assms
proof (induction xs arbitrary: s)
  case Nil
  then show ?case by (simp add: flowState_def)
next
  case (Cons i xs)
  have step: "I (flowState (body i s))" using Cons.prems by simp
  show ?case
  proof (cases "body i s")
    case (Continue s')
    with step have "I s'" by (simp add: flowState_def)
    then have "I (flowState (loop body xs s'))"
      using Cons.prems(2) by (intro Cons.IH) auto
    with Continue show ?thesis by simp
  next
    case (Return s' err)
    with step show ?thesis by (simp add: flowState_def)
  next
    case (Panic s' p)
    with step show ?thesis by (simp add: flowState_def)
  qed
qed

section \<open>The pods that the calls of a pass are given\<close>

lemma callsOn_append:
  "callsOn Q before (cs @ ds) = (callsOn Q before cs \<and> callsOn Q before ds)"
  by (simp add: callsOn_def)

lemma callsOn_Nil: "callsOn Q before []"
  by (simp add: callsOn_def)

lemma callsOn_Cons:
  "callsOn Q before (c # cs) =
     ((c \<in> set before \<or> (case callTarget c of None \<Rightarrow> True | Some pp \<Rightarrow> Q pp)) \<and>
      callsOn Q before cs)"
  by (simp add: callsOn_def)

lemma callTarget_simps:
  "callTarget (CreateStatefulPod pp) = Some pp"
  "callTarget (DeleteStatefulPod pp) = Some pp"
  "callTarget (UpdateStatefulPodCondition pp b) = Some pp"
  "callTarget (InPlaceUpdateStatefulPod pp spec) = Some pp"
  "callTarget (UpdateStatefulPod p) = None"
  "callTarget (CreateControllerRevision r n) = None"
  "callTarget (UpdateControllerRevision r n) = None"
  "callTarget (DeleteControllerRevision ro) = None"
  "callTarget (UpdateStatefulSetStatus st) = None"
  by (simp_all add: callTarget_def)

lemmas targets_simps =
  targetsInv_def flowState_def invoke_def Let_def callsOn_append callsOn_Cons callsOn_Nil
  callTarget_simps

lemma list_all_nth: "list_all Q xs \<Longrightarrow> i < length xs \<Longrightarrow> Q (xs ! i)"
  by (simp add: list_all_length)

lemma list_all_update: "list_all Q xs \<Longrightarrow> Q x \<Longrightarrow> list_all Q (xs[i := x])"
  by (metis list_all_iff set_update_subset_insert subsetD insertE)

lemma recreateFailed_targets:
  assumes "targetsInv Q before s" "i < length (p_replicas s)" "\<And>p. Q (Recreated i, p)"
  shows "targetsInv Q before (flowState (recreateFailed u e currentSet updateSet cur upd i s))"
proof -
  have q: "Q (p_replicas s ! i)" using assms(1,2) by (simp add: targetsInv_def list_all_nth)
  show ?thesis
    using assms(1) q assms(3)
    by (simp add: recreateFailed_def targets_simps list_all_update split: option.split)
qed

lemma recreateFailed_length:
  "length (p_replicas (flowState (recreateFailed u e currentSet updateSet cur upd i s)))
     = length (p_replicas s)"
  by (simp add: recreateFailed_def Let_def invoke_def flowState_def split: option.splits)

lemma forwardBody_targets:
  assumes "targetsInv Q before s" "i < length (p_replicas s)" "\<And>p. Q (Recreated i, p)"
  shows "targetsInv Q before
           (flowState (forwardBody u e sset currentSet updateSet cur upd monotonic i s))"
proof (cases "recreateFailed u e currentSet updateSet cur upd i s")
  case (Continue s1)
  have inv1: "targetsInv Q before s1"
    using recreateFailed_targets[OF assms, of u e currentSet updateSet cur upd] Continue
    by (simp add: flowState_def)
  have len: "i < length (p_replicas s1)"
    using recreateFailed_length[of u e currentSet updateSet cur upd i s] Continue assms(2)
    by (simp add: flowState_def)
  have q: "Q (p_replicas s1 ! i)" using inv1 len by (simp add: targetsInv_def list_all_nth)
  show ?thesis
    using inv1 q Continue
    by (simp add: forwardBody_def targets_simps split: option.split)
next
  case (Return s1 err)
  then show ?thesis
    using recreateFailed_targets[OF assms, of u e currentSet updateSet cur upd]
    by (simp add: forwardBody_def flowState_def)
next
  case (Panic s1 p)
  then show ?thesis
    using recreateFailed_targets[OF assms, of u e currentSet updateSet cur upd]
    by (simp add: forwardBody_def flowState_def)
qed

lemma forwardBody_length:
  "length (p_replicas (flowState (forwardBody u e sset currentSet updateSet cur upd monotonic i s)))
     = length (p_replicas s)"
  using recreateFailed_length[of u e currentSet updateSet cur upd i s]
  by (cases "recreateFailed u e currentSet updateSet cur upd i s")
     (simp_all add: forwardBody_def Let_def invoke_def flowState_def split: option.split)

lemma condemnedBody_targets:
  assumes "targetsInv Q before s" "Q (condemned ! target)"
  shows "targetsInv Q before
           (flowState (condemnedBody e condemned firstUnhealthyPod cur upd monotonic target s))"
  using assms
  by (simp add: condemnedBody_def targets_simps split: option.split)

lemma condemnedBody_length:
  "p_replicas (flowState (condemnedBody e condemned firstUnhealthyPod cur upd monotonic target s))
     = p_replicas s"
  by (simp add: condemnedBody_def Let_def invoke_def flowState_def split: option.split)

lemma updatePod_targets:
  assumes "targetsInv Q before s" "Q rp"
  shows "targetsInv Q before (flowState (updatePod u e sset cur updateRevision revisions rp s))"
  by (rule updatePod_state_rule[where Q = "\<lambda>t. targetsInv Q before t"])
     (use assms in \<open>auto simp: targets_simps\<close>)

lemma updatePod_replicas:
  "p_replicas (flowState (updatePod u e sset cur updateRevision revisions rp s)) = p_replicas s"
  by (rule updatePod_state_rule[where Q = "\<lambda>t. p_replicas t = p_replicas s"]) auto

lemma updateBody_targets:
  assumes "targetsInv Q before s"
  shows "targetsInv Q before
           (flowState (updateBody u e sset cur updateRevision revisions maxUnavailable target s))"
proof (cases "target < 0 \<or> int (length (p_replicas s)) \<le> target")
  case True
  then show ?thesis using assms by (simp add: updateBody_def flowState_def)
next
  case False
  let ?rp = "p_replicas s ! nat target"
  have "nat target < length (p_replicas s)" using False by linarith
  then have q: "Q ?rp" using assms by (simp add: targetsInv_def list_all_nth)
  have up: "targetsInv Q before (flowState (updatePod u e sset cur updateRevision revisions ?rp s))"
    using assms q by (rule updatePod_targets)
  show ?thesis
    using False assms up
    by (cases "updatePod u e sset cur updateRevision revisions ?rp s")
       (simp_all add: updateBody_def Let_def flowState_def targetsInv_def)
qed

lemma updateBody_replicas:
  "p_replicas (flowState (updateBody u e sset cur updateRevision revisions maxUnavailable target s))
     = p_replicas s"
  using updatePod_replicas[of u e sset cur updateRevision revisions "p_replicas s ! nat target" s]
  by (cases "updatePod u e sset cur updateRevision revisions (p_replicas s ! nat target) s")
     (simp_all add: updateBody_def Let_def flowState_def)

lemma forwardLoop_targets:
  assumes "targetsInv Q before s" "\<And>i p. Q (Recreated i, p)"
    and "set xs \<subseteq> {..<length (p_replicas s)}"
  shows "targetsInv Q before
           (flowState (loop (forwardBody u e sset currentSet updateSet cur upd monotonic) xs s)) \<and>
         length (p_replicas
           (flowState (loop (forwardBody u e sset currentSet updateSet cur upd monotonic) xs s)))
           = length (p_replicas s)"
proof -
  let ?I = "\<lambda>t. targetsInv Q before t \<and> length (p_replicas t) = length (p_replicas s)"
  have "?I (flowState (loop (forwardBody u e sset currentSet updateSet cur upd monotonic) xs s))"
  proof (rule loop_state_invariant[where I = ?I])
    show "?I s" using assms(1) by simp
  next
    fix i t assume i: "i \<in> set xs" and t: "?I t"
    then have "i < length (p_replicas t)" using assms(3) by auto
    with t show "?I (flowState (forwardBody u e sset currentSet updateSet cur upd monotonic i t))"
      using forwardBody_targets[of Q before t i] assms(2) by (simp add: forwardBody_length)
  qed
  then show ?thesis .
qed

lemma condemnedLoop_targets:
  assumes "targetsInv Q before s" "list_all Q condemned" "set xs \<subseteq> {..<length condemned}"
  shows "targetsInv Q before
           (flowState (loop (condemnedBody e condemned firstUnhealthyPod cur upd monotonic) xs s))"
proof (rule loop_state_invariant[where I = "targetsInv Q before"])
  show "targetsInv Q before s" by (rule assms(1))
next
  fix i t assume "i \<in> set xs" and t: "targetsInv Q before t"
  then have "Q (condemned ! i)" using assms(2,3) by (auto simp: list_all_length)
  with t show "targetsInv Q before
                 (flowState (condemnedBody e condemned firstUnhealthyPod cur upd monotonic i t))"
    by (rule condemnedBody_targets)
qed

lemma updateLoop_targets:
  assumes "targetsInv Q before s"
  shows "targetsInv Q before
           (flowState (loop (updateBody u e sset cur updateRevision revisions maxUnavailable) xs s))"
  by (rule loop_state_invariant[where I = "targetsInv Q before"])
     (simp_all add: assms updateBody_targets)

lemma updateSweep_targets:
  assumes "targetsInv Q before s"
  shows "targetsInv Q before
           (flowState (updateSweep u e sset cur updateRevision revisions replicaCount s))"
proof (cases "set_strategyType sset = OnDeleteStatefulSetStrategyType")
  case True
  then show ?thesis using assms by (simp add: updateSweep_def flowState_def)
next
  case False
  show ?thesis
  proof (cases "resolveStrategy sset replicaCount")
    case (Succeeds pr)
    obtain updateMin maxUnavailable where pr: "pr = (updateMin, maxUnavailable)" by (cases pr)
    let ?l = "loop (updateBody u e sset cur updateRevision revisions maxUnavailable)
                (updateTargets updateMin (length (p_replicas s))) s"
    have "targetsInv Q before (flowState ?l)" using assms by (rule updateLoop_targets)
    then show ?thesis
      using False Succeeds pr
      by (cases ?l) (simp_all add: updateSweep_def flowState_def)
  next
    case (Fails err)
    then show ?thesis using False assms by (simp add: updateSweep_def flowState_def)
  next
    case (Panics p)
    then show ?thesis using False assms by (simp add: updateSweep_def flowState_def)
  qed
qed

lemma sweeps_targets:
  assumes "targetsInv Q before s" "list_all Q condemned" "\<And>i p. Q (Recreated i, p)"
  shows "targetsInv Q before
           (flowState (sweeps u e sset currentSet updateSet currentRevision updateRevision
                         revisions replicaCount condemned firstUnhealthyPod s))"
proof -
  let ?m = "\<not> allowsBurst sset"
  let ?f = "loop (forwardBody u e sset currentSet updateSet (rev_name currentRevision)
                    (rev_name updateRevision) ?m) [0..<length (p_replicas s)] s"
  have f: "targetsInv Q before (flowState ?f)"
    by (rule forwardLoop_targets[THEN conjunct1]) (use assms(1,3) in auto)
  show ?thesis
  proof (cases ?f)
    case (Continue s1)
    with f have s1: "targetsInv Q before s1" by (simp add: flowState_def)
    let ?c = "loop (condemnedBody e condemned firstUnhealthyPod (rev_name currentRevision)
                      (rev_name updateRevision) ?m) (rev [0..<length condemned]) s1"
    have c: "targetsInv Q before (flowState ?c)"
      by (rule condemnedLoop_targets[OF s1 assms(2)]) auto
    show ?thesis
    proof (cases ?c)
      case (Continue s2)
      with c have "targetsInv Q before s2" by (simp add: flowState_def)
      then have "targetsInv Q before
                   (flowState (updateSweep u e sset (rev_name currentRevision) updateRevision
                                 revisions replicaCount s2))"
        by (rule updateSweep_targets)
      with \<open>?f = Continue s1\<close> Continue show ?thesis by (simp add: sweeps_def Let_def)
    next
      case (Return s2 err)
      with c \<open>?f = Continue s1\<close> show ?thesis by (simp add: sweeps_def Let_def flowState_def)
    next
      case (Panic s2 p)
      with c \<open>?f = Continue s1\<close> show ?thesis by (simp add: sweeps_def Let_def flowState_def)
    qed
  next
    case (Return s1 err)
    with f show ?thesis by (simp add: sweeps_def Let_def flowState_def)
  next
    case (Panic s1 p)
    with f show ?thesis by (simp add: sweeps_def Let_def flowState_def)
  qed
qed

lemma callsOn_refl: "callsOn Q before before"
  by (simp add: callsOn_def list_all_iff)

lemma placed_pods:
  assumes "0 \<le> n"
    and "pp \<in> set (fillReplicas u cs us c up
                   (pt_replicas (partitionPods c up n pps
                      \<lparr>pt_status = st, pt_replicas = replicate (nat n) None,
                       pt_condemned = []\<rparr>)))"
  shows "(pp \<in> set pps \<and> 0 \<le> getOrdinal (snd pp)) \<or> (\<exists>i p. pp = (Rendered i, p))"
proof -
  let ?pt0 = "\<lparr>pt_status = st, pt_replicas = replicate (nat n) None, pt_condemned = []\<rparr>"
  let ?slots = "pt_replicas (partitionPods c up n pps ?pt0)"
  from fillReplicas_elems[OF assms(2)] show ?thesis
  proof
    assume "Some pp \<in> set ?slots"
    then obtain ord where ord: "ord < length ?slots" "?slots ! ord = Some pp"
      by (metis in_set_conv_nth)
    have len: "length ?slots = nat n" by (simp add: partitionPods_length)
    have "?slots ! ord =
            (case lastWithOrdinal ord pps of None \<Rightarrow> pt_replicas ?pt0 ! ord | Some q \<Rightarrow> Some q)"
      using ord(1) len by (intro partitionPods_nth) simp_all
    with ord len have "lastWithOrdinal ord pps = Some pp"
      by (simp split: option.splits)
    from lastWithOrdinal_mem[OF this] show ?thesis by simp
  next
    assume "\<exists>i<length ?slots. pp = (Rendered i, newVersionedStatefulSetPod u cs us c up (int i))"
    then show ?thesis by blast
  qed
qed

lemma condemned_pods:
  assumes "0 \<le> n"
    and "pp \<in> set (sortCondemned (pt_condemned (partitionPods c up n pps
                      \<lparr>pt_status = st, pt_replicas = rs, pt_condemned = []\<rparr>)))"
  shows "pp \<in> set pps \<and> n \<le> getOrdinal (snd pp)"
  using assms by (simp add: sortCondemned_set partitionPods_condemned)

lemma updateStatefulSet_targets:
  assumes listed: "\<And>pp. pp \<in> set (snapshot pods) \<Longrightarrow> 0 \<le> getOrdinal (snd pp) \<Longrightarrow> Q pp"
    and rendered: "\<And>i p. Q (Rendered i, p)" and recreated: "\<And>i p. Q (Recreated i, p)"
  shows "callsOn Q calls (snd (updateStatefulSet u e sset cur upd cc pods revisions calls))"
proof (cases "ApplyRevision u sset cur")
  case (Inl err)
  then show ?thesis by (simp add: updateStatefulSet_def callsOn_refl)
next
  case (Inr currentSet)
  note cs = this
  show ?thesis
  proof (cases "ApplyRevision u sset upd")
    case (Inl err)
    with cs show ?thesis by (simp add: updateStatefulSet_def callsOn_refl)
  next
    case (Inr updateSet)
    note us = this
    show ?thesis
    proof (cases "set_replicas sset")
      case None
      with cs us show ?thesis by (simp add: updateStatefulSet_def callsOn_refl)
    next
      case (Some n)
      show ?thesis
      proof (cases "n < 0")
        case True
        with cs us Some show ?thesis by (simp add: updateStatefulSet_def callsOn_refl)
      next
        case False
        then have n: "0 \<le> n" by simp
        let ?pt = "partitionPods (rev_name cur) (rev_name upd) n (snapshot pods)
                     \<lparr>pt_status = seedStatus sset cur upd cc,
                      pt_replicas = replicate (nat n) None, pt_condemned = []\<rparr>"
        let ?rs = "fillReplicas u currentSet updateSet (rev_name cur) (rev_name upd)
                     (pt_replicas ?pt)"
        let ?cd = "sortCondemned (pt_condemned ?pt)"
        let ?s0 = "\<lparr>p_status = pt_status ?pt, p_replicas = ?rs, p_calls = calls,
                    p_unavailable = []\<rparr>"
        let ?sw = "sweeps u e sset currentSet updateSet cur upd revisions n ?cd
                     (us_firstPod (findFirstUnhealthy ?rs ?cd)) ?s0"
        have rs: "list_all Q ?rs"
          unfolding list_all_iff
        proof
          fix pp assume "pp \<in> set ?rs"
          from placed_pods[OF n this] show "Q pp" using listed rendered by blast
        qed
        have cd: "list_all Q ?cd"
          unfolding list_all_iff
        proof
          fix pp assume "pp \<in> set ?cd"
          from condemned_pods[OF n this]
          have "pp \<in> set (snapshot pods)" "0 \<le> getOrdinal (snd pp)" using n by auto
          then show "Q pp" by (rule listed)
        qed
        have "targetsInv Q calls ?s0" using rs by (simp add: targetsInv_def callsOn_refl)
        then have sw: "targetsInv Q calls (flowState ?sw)"
          using cd recreated by (rule sweeps_targets)
        show ?thesis
          using cs us Some False sw
          by (cases ?sw)
             (simp_all add: updateStatefulSet_def Let_def callsOn_refl flowState_def
                targetsInv_def)
      qed
    qed
  qed
qed


section \<open>Unfolding the model on concrete inputs\<close>

lemmas pod_evals =
  isCreated_def isTerminating_def isRunningAndReady_def isFailed_def isHealthy_def
  getPodRevision_def getOrdinal_def trailingNumber_def digitOf_def web_pod_def
  web_render_def digitChar_def decimal_digit newVersionedStatefulSetPod_def

lemmas pass_evals =
  updateStatefulSet_def sweeps_def updateSweep_def updateBody_def updatePod_def
  inPlaceUpdatePod_def isUnavailable_def resolveStrategy_def GetValueFromIntOrPercent_def
  ValueOrDefault_def updateTargets_def condemnedBody_def forwardBody_def recreateFailed_def
  addCounted_def removeCounted_def findFirstUnhealthy_def scanPod_def sortCondemned_def
  fillReplicas_def placePod_def countPod_def snapshot_def seedStatus_def invoke_def
  allowsBurst_def isInPlaceOnly_def MaxInt32_def Let_def

lemmas web_evals =
  web_utils_def web_env_def web_set_def web_v1_def web_v2_def web_v3_def


lemmas revision_evals =
  UpdateStatefulSet_def getStatefulSetRevisions_def SortControllerRevisions_def
  FindEqualRevisions_def EqualRevision_def nextRevision_def newRevision_def
  collisionCountOf_def findCurrent_def updateStatefulSetStatus_def truncateHistory_def
  isLive_def


section \<open>Rules for loops\<close>

lemma loop_append:
  "loop body (xs @ ys) s =
     (case loop body xs s of
        Continue s' \<Rightarrow> loop body ys s'
      | Return s' err \<Rightarrow> Return s' err
      | Panic s' p \<Rightarrow> Panic s' p)"
  by (induction xs arbitrary: s) (simp_all split: flow.splits)

lemma loop_rule_aux:
  assumes step: "\<And>ys i zs t. xs = ys @ i # zs \<Longrightarrow> I ys t \<Longrightarrow>
             (case body i t of
                Continue t' \<Rightarrow> I (ys @ [i]) t'
              | Return t' err \<Rightarrow> R t' err
              | Panic t' p \<Rightarrow> P t' p)"
  shows "xs = ys @ zs \<Longrightarrow> I ys s \<Longrightarrow>
         (case loop body zs s of
            Continue s' \<Rightarrow> I xs s'
          | Return s' err \<Rightarrow> R s' err
          | Panic s' p \<Rightarrow> P s' p)"
proof (induction zs arbitrary: ys s)
  case Nil
  then show ?case by simp
next
  case (Cons i zs)
  from step[OF Cons.prems(1) Cons.prems(2)]
  have b: "case body i s of
             Continue t' \<Rightarrow> I (ys @ [i]) t'
           | Return t' err \<Rightarrow> R t' err
           | Panic t' p \<Rightarrow> P t' p" .
  show ?case
  proof (cases "body i s")
    case (Continue t')
    with b have "I (ys @ [i]) t'" by simp
    moreover have "xs = (ys @ [i]) @ zs" using Cons.prems(1) by simp
    ultimately have "case loop body zs t' of
                       Continue s' \<Rightarrow> I xs s'
                     | Return s' err \<Rightarrow> R s' err
                     | Panic s' p \<Rightarrow> P s' p"
      by (rule Cons.IH[rotated])
    with Continue show ?thesis by simp
  next
    case (Return t' err)
    with b show ?thesis by simp
  next
    case (Panic t' p)
    with b show ?thesis by simp
  qed
qed

lemma loop_rule:
  assumes "I [] s"
    and "\<And>ys i zs t. xs = ys @ i # zs \<Longrightarrow> I ys t \<Longrightarrow>
             (case body i t of
                Continue t' \<Rightarrow> I (ys @ [i]) t'
              | Return t' err \<Rightarrow> R t' err
              | Panic t' p \<Rightarrow> P t' p)"
  shows "case loop body xs s of
           Continue s' \<Rightarrow> I xs s'
         | Return s' err \<Rightarrow> R s' err
         | Panic s' p \<Rightarrow> P s' p"
  using loop_rule_aux[where xs = xs and ys = "[]" and zs = xs and I = I and R = R and P = P
      and body = body and s = s] assms
  by simp

section \<open>Calls are only added\<close>

lemma extends_refl: "extends cs cs"
  by (simp add: extends_def)

lemma extends_length: "extends cs cs' \<Longrightarrow> length cs \<le> length cs'"
proof -
  assume "extends cs cs'"
  then have "length (take (length cs) cs') = length cs" by (simp add: extends_def)
  then show ?thesis by simp
qed

lemma extends_append: "extends cs cs' \<Longrightarrow> extends cs (cs' @ xs)"
  using extends_length[of cs cs'] by (simp add: extends_def)

lemma extends_split: "extends cs cs' \<Longrightarrow> cs' = cs @ drop (length cs) cs'"
proof -
  assume "extends cs cs'"
  then have "take (length cs) cs' = cs" by (simp add: extends_def)
  then have "take (length cs) cs' @ drop (length cs) cs' = cs @ drop (length cs) cs'" by simp
  then show ?thesis by simp
qed

lemma extends_trans: "extends a b \<Longrightarrow> extends b c \<Longrightarrow> extends a c"
proof -
  assume ab: "extends a b" and bc: "extends b c"
  from extends_split[OF bc] obtain xs where "c = b @ xs" by blast
  with extends_append[OF ab, of xs] show ?thesis by simp
qed

lemmas extends_simps = extends_refl extends_append

lemma recreateFailed_extends:
  "extends (p_calls s) (p_calls (flowState (recreateFailed u e currentSet updateSet cur upd i s)))"
  by (simp add: recreateFailed_def Let_def invoke_def flowState_def extends_simps
        split: option.split)

lemma forwardBody_extends:
  "extends (p_calls s)
     (p_calls (flowState (forwardBody u e sset currentSet updateSet cur upd monotonic i s)))"
proof (cases "recreateFailed u e currentSet updateSet cur upd i s")
  case (Continue s1)
  have e1: "extends (p_calls s) (p_calls s1)"
    using recreateFailed_extends[of s u e currentSet updateSet cur upd i] Continue
    by (simp add: flowState_def)
  show ?thesis
    using Continue e1
    by (simp add: forwardBody_def Let_def invoke_def flowState_def extends_simps
          split: option.split)
next
  case (Return s1 err)
  then show ?thesis
    using recreateFailed_extends[of s u e currentSet updateSet cur upd i]
    by (simp add: forwardBody_def flowState_def)
next
  case (Panic s1 p)
  then show ?thesis
    using recreateFailed_extends[of s u e currentSet updateSet cur upd i]
    by (simp add: forwardBody_def flowState_def)
qed

lemma condemnedBody_extends:
  "extends (p_calls s)
     (p_calls (flowState (condemnedBody e condemned firstUnhealthyPod cur upd monotonic
                            target s)))"
  by (simp add: condemnedBody_def Let_def invoke_def flowState_def extends_simps
        split: option.split)

lemma updatePod_extends:
  "extends (p_calls s)
     (p_calls (flowState (updatePod u e sset cur updateRevision revisions rp s)))"
  by (rule updatePod_state_rule[where Q = "\<lambda>t. extends (p_calls s) (p_calls t)"])
     (auto simp: extends_simps)

lemma updateBody_extends:
  "extends (p_calls s)
     (p_calls (flowState (updateBody u e sset cur updateRevision revisions maxUnavailable
                            target s)))"
  using updatePod_extends[of s u e sset cur updateRevision revisions "p_replicas s ! nat target"]
  by (cases "updatePod u e sset cur updateRevision revisions (p_replicas s ! nat target) s")
     (simp_all add: updateBody_def Let_def flowState_def extends_simps)

lemma loop_extends:
  fixes body :: "'i \<Rightarrow> pass \<Rightarrow> pass flow"
  assumes "\<And>i t. extends (p_calls t) (p_calls (flowState (body i t)))"
  shows "extends (p_calls s) (p_calls (flowState (loop body xs s)))"
proof (rule loop_state_invariant[where I = "\<lambda>t. extends (p_calls s) (p_calls t)"])
  show "extends (p_calls s) (p_calls s)" by (rule extends_refl)
next
  fix i and t :: pass
  assume "extends (p_calls s) (p_calls t)"
  then show "extends (p_calls s) (p_calls (flowState (body i t)))"
    using assms by (rule extends_trans)
qed

section \<open>Where a returned error comes from\<close>

lemma repliedAfter_snoc:
  "repliedAfter e before (cs @ [c]) err = (extends before cs \<and> reply e cs c = Some err)"
  by (simp add: repliedAfter_def)

lemma repliedAfter_snoc2:
  "repliedAfter e before (cs @ [a, c]) err =
     (extends before (cs @ [a]) \<and> reply e (cs @ [a]) c = Some err)"
  using repliedAfter_snoc[of e before "cs @ [a]" c err] by simp

lemma repliedAfter_trans:
  assumes "extends before cs" and "repliedAfter e cs cs' err"
  shows "repliedAfter e before cs' err"
  using assms extends_trans[of before cs "butlast cs'"] by (auto simp: repliedAfter_def)

lemma errorReplied_simps:
  "errorReplied e before (Continue s)"
  "errorReplied e before (Panic s p)"
  "errorReplied e before (Return s None)"
  "errorReplied e before (Return s (Some err)) = repliedAfter e before (p_calls s) err"
  by (simp_all add: errorReplied_def)

lemma errorReplied_trans:
  assumes "extends before (p_calls s)" and "errorReplied e (p_calls s) f"
  shows "errorReplied e before f"
  using assms repliedAfter_trans[of before "p_calls s" e]
  by (auto simp: errorReplied_def split: flow.splits option.splits)

lemma recreateFailed_error:
  "errorReplied e (p_calls s) (recreateFailed u e currentSet updateSet cur upd i s)"
  by (simp add: recreateFailed_def Let_def invoke_def errorReplied_simps repliedAfter_snoc
        extends_refl split: option.split)

lemma forwardBody_error:
  "errorReplied e (p_calls s) (forwardBody u e sset currentSet updateSet cur upd monotonic i s)"
proof (cases "recreateFailed u e currentSet updateSet cur upd i s")
  case (Continue s1)
  have e1: "extends (p_calls s) (p_calls s1)"
    using recreateFailed_extends[of s u e currentSet updateSet cur upd i] Continue
    by (simp add: flowState_def)
  have "errorReplied e (p_calls s1)
          (forwardBody u e sset currentSet updateSet cur upd monotonic i s)"
    using Continue
    by (simp add: forwardBody_def Let_def invoke_def errorReplied_simps repliedAfter_snoc
          repliedAfter_snoc2 extends_simps split: option.split)
  with e1 show ?thesis by (rule errorReplied_trans)
next
  case (Return s1 err)
  then show ?thesis
    using recreateFailed_error[of e s u currentSet updateSet cur upd i]
    by (simp add: forwardBody_def)
next
  case (Panic s1 p)
  then show ?thesis by (simp add: forwardBody_def errorReplied_simps)
qed

lemma condemnedBody_error:
  "errorReplied e (p_calls s)
     (condemnedBody e condemned firstUnhealthyPod cur upd monotonic target s)"
  by (simp add: condemnedBody_def Let_def invoke_def errorReplied_simps repliedAfter_snoc
        extends_refl split: option.split)

lemma deleteForUpdate_error:
  "extends (p_calls s) cs \<Longrightarrow> errorReplied e (p_calls s) (deleteForUpdate e cur rp cs s)"
  by (simp add: deleteForUpdate_def errorReplied_simps repliedAfter_snoc split: option.split)

lemma updatePod_error:
  "errorReplied e (p_calls s) (updatePod u e sset cur updateRevision revisions rp s)"
proof -
  let ?d = "shouldDoInPlaceUpdate u sset updateRevision (getPodRevision (snd rp)) revisions"
  show ?thesis
  proof (cases "fst ?d")
    case False
    then show ?thesis
      by (simp add: updatePod_recreate deleteForUpdate_error extends_refl)
  next
    case inpl: True
    show ?thesis
    proof (cases "checkInPlaceUpdateCompleted u (snd rp)")
      case (Some err)
      with inpl show ?thesis by (simp add: updatePod_skip errorReplied_simps)
    next
      case None
      obtain updateErr cs where att: "inPlaceUpdatePod e rp (snd ?d) (p_calls s) = (updateErr, cs)"
        by (cases "inPlaceUpdatePod e rp (snd ?d) (p_calls s)")
      from inPlaceUpdatePod_calls[OF att] have "extends (p_calls s) cs"
        by (auto simp: extends_simps)
      then show ?thesis
        by (simp add: updatePod_inPlace[OF inpl None att] deleteForUpdate_error
              errorReplied_simps)
    qed
  qed
qed

lemma updateBody_error:
  "errorReplied e (p_calls s)
     (updateBody u e sset cur updateRevision revisions maxUnavailable target s)"
  using updatePod_error[of e s u sset cur updateRevision revisions "p_replicas s ! nat target"]
  by (cases "updatePod u e sset cur updateRevision revisions (p_replicas s ! nat target) s")
     (simp_all add: updateBody_def Let_def errorReplied_simps)

lemma loop_error:
  fixes body :: "'i \<Rightarrow> pass \<Rightarrow> pass flow"
  assumes ext: "\<And>i t. extends (p_calls t) (p_calls (flowState (body i t)))"
    and err: "\<And>i t. errorReplied e (p_calls t) (body i t)"
  shows "errorReplied e (p_calls s) (loop body xs s)"
proof -
  have "case loop body xs s of
          Continue s' \<Rightarrow> extends (p_calls s) (p_calls s')
        | Return s' r \<Rightarrow> errorReplied e (p_calls s) (Return s' r)
        | Panic s' p \<Rightarrow> True"
  proof (rule loop_rule[where I = "\<lambda>ys t. extends (p_calls s) (p_calls t)"])
    show "extends (p_calls s) (p_calls s)" by (rule extends_refl)
  next
    fix ys i zs and t :: pass
    assume t: "extends (p_calls s) (p_calls t)"
    have "errorReplied e (p_calls s) (body i t)"
      using t err[of t i] by (rule errorReplied_trans)
    moreover have "extends (p_calls s) (p_calls (flowState (body i t)))"
      using t ext[of t i] by (rule extends_trans)
    ultimately show "case body i t of
                       Continue t' \<Rightarrow> extends (p_calls s) (p_calls t')
                     | Return t' r \<Rightarrow> errorReplied e (p_calls s) (Return t' r)
                     | Panic t' p \<Rightarrow> True"
      by (cases "body i t") (simp_all add: flowState_def)
  qed
  then show ?thesis by (cases "loop body xs s") (simp_all add: errorReplied_simps)
qed

lemma updateSweep_error:
  assumes "updateSweep u e sset cur updateRevision revisions n s = Return s' (Some err)"
  shows "resolveStrategy sset n = Fails err \<or> repliedAfter e (p_calls s) (p_calls s') err"
proof (cases "resolveStrategy sset n")
  case (Succeeds r)
  obtain updateMin maxUnavailable where r: "r = (updateMin, maxUnavailable)" by (cases r)
  let ?l = "loop (updateBody u e sset cur updateRevision revisions maxUnavailable)
              (updateTargets updateMin (length (p_replicas s))) s"
  have "errorReplied e (p_calls s) ?l"
    by (rule loop_error) (rule updateBody_extends, rule updateBody_error)
  then show ?thesis
    using assms Succeeds r
    by (cases ?l) (simp_all add: updateSweep_def errorReplied_simps split: if_splits)
next
  case (Fails x)
  with assms show ?thesis by (simp add: updateSweep_def split: if_splits)
next
  case (Panics p)
  with assms show ?thesis by (simp add: updateSweep_def split: if_splits)
qed

lemma sweeps_error:
  assumes "sweeps u e sset currentSet updateSet currentRevision updateRevision revisions n
             condemned firstUnhealthyPod s = Return s' (Some err)"
  shows "resolveStrategy sset n = Fails err \<or> repliedAfter e (p_calls s) (p_calls s') err"
proof -
  let ?cur = "rev_name currentRevision" and ?upd = "rev_name updateRevision"
  let ?fb = "forwardBody u e sset currentSet updateSet ?cur ?upd (\<not> allowsBurst sset)"
  let ?cb = "condemnedBody e condemned firstUnhealthyPod ?cur ?upd (\<not> allowsBurst sset)"
  let ?l1 = "loop ?fb [0..<length (p_replicas s)] s"
  have e1: "errorReplied e (p_calls s) ?l1"
    by (rule loop_error) (rule forwardBody_extends, rule forwardBody_error)
  have x1: "extends (p_calls s) (p_calls (flowState ?l1))"
    by (rule loop_extends) (rule forwardBody_extends)
  show ?thesis
  proof (cases ?l1)
    case (Continue s1)
    let ?l2 = "loop ?cb (rev [0..<length condemned]) s1"
    from x1 Continue have x1': "extends (p_calls s) (p_calls s1)" by (simp add: flowState_def)
    have e2: "errorReplied e (p_calls s1) ?l2"
      by (rule loop_error) (rule condemnedBody_extends, rule condemnedBody_error)
    have x2: "extends (p_calls s1) (p_calls (flowState ?l2))"
      by (rule loop_extends) (rule condemnedBody_extends)
    show ?thesis
    proof (cases ?l2)
      case c2: (Continue s2)
      from x2 c2 have "extends (p_calls s1) (p_calls s2)" by (simp add: flowState_def)
      with x1' have x: "extends (p_calls s) (p_calls s2)" by (rule extends_trans)
      from assms Continue c2
      have "updateSweep u e sset ?cur updateRevision revisions n s2 = Return s' (Some err)"
        by (simp add: sweeps_def Let_def)
      from updateSweep_error[OF this] x show ?thesis
        using repliedAfter_trans[of "p_calls s" "p_calls s2" e "p_calls s'" err] by blast
    next
      case r2: (Return s2 r)
      with assms Continue have "s2 = s'" "r = Some err" by (simp_all add: sweeps_def Let_def)
      with e2 r2 have "repliedAfter e (p_calls s1) (p_calls s') err"
        by (simp add: errorReplied_simps)
      with x1' show ?thesis
        using repliedAfter_trans[of "p_calls s" "p_calls s1" e "p_calls s'" err] by blast
    next
      case (Panic s2 p)
      with assms Continue show ?thesis by (simp add: sweeps_def Let_def)
    qed
  next
    case (Return s1 r)
    with assms have "s1 = s'" "r = Some err" by (simp_all add: sweeps_def Let_def)
    with e1 Return show ?thesis by (simp add: errorReplied_simps)
  next
    case (Panic s1 p)
    with assms show ?thesis by (simp add: sweeps_def Let_def)
  qed
qed

lemma updateStatefulSet_error:
  assumes "updateStatefulSet u e sset currentRevision updateRevision cc pods revisions calls
             = (Returned (st, Some err), cs)"
  shows "ApplyRevision u sset currentRevision = Inl err \<or>
         ApplyRevision u sset updateRevision = Inl err \<or>
         (\<exists>n. set_replicas sset = Some n \<and> resolveStrategy sset n = Fails err) \<or>
         repliedAfter e calls cs err"
proof (cases "ApplyRevision u sset currentRevision")
  case (Inl x)
  with assms show ?thesis by (simp add: updateStatefulSet_def)
next
  case cs: (Inr currentSet)
  show ?thesis
  proof (cases "ApplyRevision u sset updateRevision")
    case (Inl x)
    with assms cs show ?thesis by (simp add: updateStatefulSet_def)
  next
    case us: (Inr updateSet)
    show ?thesis
    proof (cases "set_replicas sset")
      case None
      with assms cs us show ?thesis by (simp add: updateStatefulSet_def)
    next
      case (Some n)
      let ?pt = "partitionPods (rev_name currentRevision) (rev_name updateRevision) n
                   (snapshot pods)
                   \<lparr>pt_status = seedStatus sset currentRevision updateRevision cc,
                    pt_replicas = replicate (nat n) None, pt_condemned = []\<rparr>"
      let ?rs = "fillReplicas u currentSet updateSet (rev_name currentRevision)
                   (rev_name updateRevision) (pt_replicas ?pt)"
      let ?cd = "sortCondemned (pt_condemned ?pt)"
      let ?s0 = "\<lparr>p_status = pt_status ?pt, p_replicas = ?rs, p_calls = calls,
                  p_unavailable = []\<rparr>"
      let ?sw = "sweeps u e sset currentSet updateSet currentRevision updateRevision revisions
                   n ?cd (us_firstPod (findFirstUnhealthy ?rs ?cd)) ?s0"
      from assms cs us Some
      have "\<exists>s'. ?sw = Return s' (Some err) \<and> cs = p_calls s'"
        by (cases ?sw) (simp_all add: updateStatefulSet_def Let_def split: if_splits)
      then obtain s' where s': "?sw = Return s' (Some err)" "cs = p_calls s'" by blast
      from sweeps_error[OF s'(1)] s'(2) Some show ?thesis by simp
    qed
  qed
qed

section \<open>Running a pass in stages\<close>

lemma updateStatefulSet_stages:
  assumes "ApplyRevision u sset currentRevision = Inr currentSet"
    and "ApplyRevision u sset updateRevision = Inr updateSet"
    and "set_replicas sset = Some n" and "0 \<le> n"
    and "partitionPods (rev_name currentRevision) (rev_name updateRevision) n (snapshot pods)
           \<lparr>pt_status = seedStatus sset currentRevision updateRevision cc,
            pt_replicas = replicate (nat n) None, pt_condemned = []\<rparr> = pt"
    and "fillReplicas u currentSet updateSet (rev_name currentRevision)
           (rev_name updateRevision) (pt_replicas pt) = replicas"
    and "sortCondemned (pt_condemned pt) = condemned"
    and "findFirstUnhealthy replicas condemned = scan"
    and "\<not> (us_unhealthy scan > 0 \<and> us_firstPod scan = None)"
    and "set_deletionTimestamp sset = None"
    and "sweeps u e sset currentSet updateSet currentRevision updateRevision revisions
           n condemned (us_firstPod scan)
           \<lparr>p_status = pt_status pt, p_replicas = replicas, p_calls = calls,
            p_unavailable = []\<rparr> = outcome"
  shows "updateStatefulSet u e sset currentRevision updateRevision cc pods revisions calls =
     (case outcome of
        Continue s \<Rightarrow> (Returned (Some (p_status s), None), p_calls s)
      | Return s err \<Rightarrow> (Returned (Some (p_status s), err), p_calls s)
      | Panic s p \<Rightarrow> (Panicked p, p_calls s))"
  using assms by (auto simp: updateStatefulSet_def Let_def)

lemma UpdateStatefulSet_stages:
  assumes "listed e = Inr revisions0"
    and "SortControllerRevisions revisions0 = revisions"
    and "getStatefulSetRevisions u e sset revisions []
           = (Inr (currentRevision, updateRevision, cc), cs)"
    and "updateStatefulSet u e sset currentRevision updateRevision cc pods revisions cs
           = (res, cs1)"
  shows "UpdateStatefulSet u e sset pods =
     (case (res, cs1) of
        (Panicked p, cs1) \<Rightarrow> (Panicked p, cs1)
      | (Returned (st, Some err), cs1) \<Rightarrow> (Returned (Some err), cs1)
      | (Returned (None, None), cs1) \<Rightarrow> (Panicked NilDereference, cs1)
      | (Returned (Some st, None), cs1) \<Rightarrow>
          (case updateStatefulSetStatus u e sset st cs1 of
             (Some err, cs2) \<Rightarrow> (Returned (Some err), cs2)
           | (None, cs2) \<Rightarrow>
               truncateHistory e sset pods revisions currentRevision updateRevision cs2))"
  using assms by (simp add: UpdateStatefulSet_def Let_def)

section \<open>The forward sweep of an OrderedReady set\<close>

lemma isCreate_simps:
  "isCreate (CreateStatefulPod pp)"
  "\<not> isCreate (DeleteStatefulPod pp)"
  "\<not> isCreate (UpdateStatefulPod p)"
  "\<not> isCreate (UpdateStatefulPodCondition pp b)"
  "\<not> isCreate (InPlaceUpdateStatefulPod pp spec)"
  by (simp_all add: isCreate_def)

lemma running_not_failed: "isRunningAndReady p \<Longrightarrow> \<not> isFailed p"
  by (auto simp: isRunningAndReady_def isFailed_def)

lemma fresh_not_created:
  "\<not> isCreated (newVersionedStatefulSetPod u currentSet updateSet cur upd ord)"
  by (simp add: newVersionedStatefulSetPod_def isCreated_def)

text \<open>One iteration on a set that does not allow bursts: it falls through only on a
  settled pod and then creates nothing; a create it issues is its last call, after
  which it returns with the reply of that call.\<close>

lemma forwardBody_monotonic:
  assumes inside: "i < length (p_replicas s)"
  shows "case forwardBody u e sset currentSet updateSet cur upd True i s of
     Continue s' \<Rightarrow>
       settled (snd (p_replicas s ! i)) \<and> p_replicas s' = p_replicas s \<and>
       filter isCreate (p_calls s') = filter isCreate (p_calls s)
   | Return s' err \<Rightarrow>
       filter isCreate (p_calls s') = filter isCreate (p_calls s) \<or>
       (\<exists>pp. p_calls s' = butlast (p_calls s') @ [CreateStatefulPod pp] \<and>
             filter isCreate (butlast (p_calls s')) = filter isCreate (p_calls s) \<and>
             err = reply e (butlast (p_calls s')) (CreateStatefulPod pp) \<and>
             \<not> isCreated (snd pp) \<and>
             (pp = p_replicas s ! i \<or>
              isFailed (snd (p_replicas s ! i)) \<and> fst pp = Recreated i))
   | Panic s' p \<Rightarrow> False"
proof (cases "isFailed (snd (p_replicas s ! i))")
  case False
  then have r: "recreateFailed u e currentSet updateSet cur upd i s = Continue s"
    by (simp add: recreateFailed_def Let_def)
  show ?thesis
    using False
    by (simp add: forwardBody_def r Let_def invoke_def settled_def isCreate_simps
          butlast_append split: option.split)
next
  case True
  show ?thesis
  proof (cases "reply e (p_calls s) (DeleteStatefulPod (p_replicas s ! i))")
    case (Some err)
    with True have r: "recreateFailed u e currentSet updateSet cur upd i s
                         = Return (s\<lparr>p_calls := p_calls s @ [DeleteStatefulPod (p_replicas s ! i)]\<rparr>)
                             (Some err)"
      by (simp add: recreateFailed_def Let_def invoke_def)
    show ?thesis by (simp add: forwardBody_def r isCreate_simps)
  next
    case None
    let ?fresh = "(Recreated i, newVersionedStatefulSetPod u currentSet updateSet cur upd (int i))"
    obtain s1 where r: "recreateFailed u e currentSet updateSet cur upd i s = Continue s1"
      and c1: "p_calls s1 = p_calls s @ [DeleteStatefulPod (p_replicas s ! i)]"
      and r1: "p_replicas s1 = (p_replicas s)[i := ?fresh]"
      using True None by (simp add: recreateFailed_def Let_def invoke_def)
    have at: "p_replicas s1 ! i = ?fresh" using inside by (simp add: r1)
    show ?thesis
      using True
      by (simp add: forwardBody_def r Let_def invoke_def at c1 isCreate_simps
            butlast_append fresh_not_created split: option.split)
  qed
qed
lemma upt_split:
  assumes "ys @ i # zs = [0..<n]"
  shows "ys = [0..<i] \<and> i < n"
proof -
  have len: "length ys < n"
  proof -
    have "length (ys @ i # zs) = n" using assms by simp
    then show ?thesis by simp
  qed
  have "[0..<n] ! length ys = i" using assms by (metis nth_append_length)
  with len have i: "i = length ys" by simp
  have "ys = take (length ys) (ys @ i # zs)" by simp
  also have "\<dots> = take (length ys) [0..<n]" using assms by simp
  also have "\<dots> = [0..<length ys]" using len by (simp add: take_upt)
  finally show ?thesis using i len by simp
qed

lemma condemnedBody_creates:
  "filter isCreate
     (p_calls (flowState (condemnedBody e condemned firstUnhealthyPod cur upd monotonic
                            target s)))
   = filter isCreate (p_calls s)"
  by (simp add: condemnedBody_def Let_def invoke_def flowState_def isCreate_simps
        split: option.split)

lemma updatePod_creates:
  "filter isCreate (p_calls (flowState (updatePod u e sset cur updateRevision revisions rp s)))
   = filter isCreate (p_calls s)"
  by (rule updatePod_state_rule
             [where Q = "\<lambda>t. filter isCreate (p_calls t) = filter isCreate (p_calls s)"])
     (auto simp: isCreate_simps)

lemma updateBody_creates:
  "filter isCreate
     (p_calls (flowState (updateBody u e sset cur updateRevision revisions maxUnavailable
                            target s)))
   = filter isCreate (p_calls s)"
  using updatePod_creates[of u e sset cur updateRevision revisions "p_replicas s ! nat target" s]
  by (cases "updatePod u e sset cur updateRevision revisions (p_replicas s ! nat target) s")
     (simp_all add: updateBody_def Let_def flowState_def)

lemma updateSweep_creates:
  "filter isCreate
     (p_calls (flowState (updateSweep u e sset cur updateRevision revisions replicaCount s)))
   = filter isCreate (p_calls s)"
proof (cases "set_strategyType sset = OnDeleteStatefulSetStrategyType")
  case True
  then show ?thesis by (simp add: updateSweep_def flowState_def)
next
  case False
  show ?thesis
  proof (cases "resolveStrategy sset replicaCount")
    case (Succeeds pr)
    obtain updateMin maxUnavailable where pr: "pr = (updateMin, maxUnavailable)" by (cases pr)
    let ?l = "loop (updateBody u e sset cur updateRevision revisions maxUnavailable)
                (updateTargets updateMin (length (p_replicas s))) s"
    have "filter isCreate (p_calls (flowState ?l)) = filter isCreate (p_calls s)"
      by (rule loop_state_invariant
                 [where I = "\<lambda>t. filter isCreate (p_calls t) = filter isCreate (p_calls s)"])
         (simp_all add: updateBody_creates)
    then show ?thesis
      using False Succeeds pr
      by (cases ?l) (simp_all add: updateSweep_def flowState_def)
  next
    case (Fails err)
    then show ?thesis using False by (simp add: updateSweep_def flowState_def)
  next
    case (Panics p)
    then show ?thesis using False by (simp add: updateSweep_def flowState_def)
  qed
qed

lemma condemnedLoop_creates:
  "filter isCreate
     (p_calls (flowState (loop (condemnedBody e condemned firstUnhealthyPod cur upd monotonic)
                            xs s)))
   = filter isCreate (p_calls s)"
  by (rule loop_state_invariant
             [where I = "\<lambda>t. filter isCreate (p_calls t) = filter isCreate (p_calls s)"])
     (simp_all add: condemnedBody_creates)

lemma forwardLoop_monotonic:
  assumes k: "k \<le> length (p_replicas s)"
  shows "case loop (forwardBody u e sset currentSet updateSet cur upd True) [0..<k] s of
           Continue s' \<Rightarrow>
             p_replicas s' = p_replicas s \<and>
             (\<forall>i < k. settled (snd (p_replicas s ! i))) \<and>
             filter isCreate (p_calls s') = filter isCreate (p_calls s)
         | Return s' err \<Rightarrow>
             filter isCreate (p_calls s') = filter isCreate (p_calls s) \<or>
             (\<exists>pp j. createdAt e s (p_calls s') err pp j)
         | Panic s' p \<Rightarrow> False"
proof -
  let ?I = "\<lambda>ys t. p_replicas t = p_replicas s \<and>
                    (\<forall>i \<in> set ys. settled (snd (p_replicas s ! i))) \<and>
                    filter isCreate (p_calls t) = filter isCreate (p_calls s)"
  let ?R = "\<lambda>t err. filter isCreate (p_calls t) = filter isCreate (p_calls s) \<or>
                     (\<exists>pp j. createdAt e s (p_calls t) err pp j)"
  have "case loop (forwardBody u e sset currentSet updateSet cur upd True) [0..<k] s of
          Continue s' \<Rightarrow> ?I [0..<k] s'
        | Return s' err \<Rightarrow> ?R s' err
        | Panic s' p \<Rightarrow> False"
  proof (rule loop_rule[where I = ?I and R = ?R and P = "\<lambda>t p. False"])
    show "?I [] s" by simp
  next
    fix ys i zs and t :: pass
    assume split: "[0..<k] = ys @ i # zs" and inv: "?I ys t"
    from upt_split[OF split[symmetric]] have ys: "ys = [0..<i]" and i: "i < k" by simp_all
    have inside: "i < length (p_replicas t)" using i k inv by simp
    have below: "\<forall>j < i. settled (snd (p_replicas s ! j))" using inv ys by simp
    note b = forwardBody_monotonic[OF inside, where u = u and e = e and sset = sset
        and currentSet = currentSet and updateSet = updateSet and cur = cur and upd = upd]
    show "case forwardBody u e sset currentSet updateSet cur upd True i t of
            Continue t' \<Rightarrow> ?I (ys @ [i]) t'
          | Return t' err \<Rightarrow> ?R t' err
          | Panic t' p \<Rightarrow> False"
    proof (cases "forwardBody u e sset currentSet updateSet cur upd True i t")
      case (Continue t')
      with b inv show ?thesis by simp
    next
      case (Return t' err)
      with b have
        "filter isCreate (p_calls t') = filter isCreate (p_calls t) \<or>
         (\<exists>pp. p_calls t' = butlast (p_calls t') @ [CreateStatefulPod pp] \<and>
               filter isCreate (butlast (p_calls t')) = filter isCreate (p_calls t) \<and>
               err = reply e (butlast (p_calls t')) (CreateStatefulPod pp) \<and>
               \<not> isCreated (snd pp) \<and>
               (pp = p_replicas t ! i \<or>
                isFailed (snd (p_replicas t ! i)) \<and> fst pp = Recreated i))"
        by simp
      then have "?R t' err"
      proof
        assume "filter isCreate (p_calls t') = filter isCreate (p_calls t)"
        then show ?thesis using inv by simp
      next
        assume "\<exists>pp. p_calls t' = butlast (p_calls t') @ [CreateStatefulPod pp] \<and>
               filter isCreate (butlast (p_calls t')) = filter isCreate (p_calls t) \<and>
               err = reply e (butlast (p_calls t')) (CreateStatefulPod pp) \<and>
               \<not> isCreated (snd pp) \<and>
               (pp = p_replicas t ! i \<or>
                isFailed (snd (p_replicas t ! i)) \<and> fst pp = Recreated i)"
        then obtain pp where pp:
          "p_calls t' = butlast (p_calls t') @ [CreateStatefulPod pp]"
          "filter isCreate (butlast (p_calls t')) = filter isCreate (p_calls t)"
          "err = reply e (butlast (p_calls t')) (CreateStatefulPod pp)"
          "\<not> isCreated (snd pp)"
          "pp = p_replicas t ! i \<or> isFailed (snd (p_replicas t ! i)) \<and> fst pp = Recreated i"
          by blast
        have "createdAt e s (p_calls t') err pp i"
          unfolding createdAt_def using pp inv below i k by auto
        then show ?thesis by blast
      qed
      with Return show ?thesis by simp
    next
      case (Panic t' p)
      with b show ?thesis by simp
    qed
  qed
  then show ?thesis by (simp split: flow.splits)
qed

lemma updateStatefulSet_calls:
  "snd (updateStatefulSet u e sset cur upd cc pods revisions calls) = calls \<or>
   (\<exists>currentSet updateSet n condemned firstPod s.
      p_calls s = calls \<and>
      snd (updateStatefulSet u e sset cur upd cc pods revisions calls)
        = p_calls (flowState (sweeps u e sset currentSet updateSet cur upd revisions n
                                condemned firstPod s)))"
proof -
  let ?R = "updateStatefulSet u e sset cur upd cc pods revisions calls"
  show ?thesis
  proof (cases "snd ?R = calls")
    case True
    then show ?thesis by simp
  next
    case False
    then obtain currentSet updateSet n where
      a: "ApplyRevision u sset cur = Inr currentSet" "ApplyRevision u sset upd = Inr updateSet"
         "set_replicas sset = Some n" "\<not> n < 0"
      by (auto simp: updateStatefulSet_def split: sum.splits option.splits if_splits)
    let ?pt = "partitionPods (rev_name cur) (rev_name upd) n (snapshot pods)
                 \<lparr>pt_status = seedStatus sset cur upd cc,
                  pt_replicas = replicate (nat n) None, pt_condemned = []\<rparr>"
    let ?rs = "fillReplicas u currentSet updateSet (rev_name cur) (rev_name upd)
                 (pt_replicas ?pt)"
    let ?cd = "sortCondemned (pt_condemned ?pt)"
    let ?s0 = "\<lparr>p_status = pt_status ?pt, p_replicas = ?rs, p_calls = calls,
                p_unavailable = []\<rparr>"
    let ?sw = "sweeps u e sset currentSet updateSet cur upd revisions n ?cd
                 (us_firstPod (findFirstUnhealthy ?rs ?cd)) ?s0"
    have "snd ?R = p_calls (flowState ?sw)"
      using False a
      by (cases ?sw) (simp_all add: updateStatefulSet_def Let_def flowState_def split: if_splits)
    moreover have "p_calls ?s0 = calls" by simp
    ultimately show ?thesis by blast
  qed
qed

text \<open>
  Claim C3. For a set that does not allow bursts (OrderedReady): the forward sweep gets
  past the slots below \<open>k\<close> only if each of them holds a pod that is created, not
  terminating and running and ready, and it has then created nothing; the calls of the
  three sweeps either create no pod, or they end with the one create of the pass, on a
  pod that is not created, in a slot below which every pod is settled, and the pass
  returns right there with the reply of that call; so \<^verbatim>\<open>updateStatefulSet\<close> adds at most
  one create to the calls.
\<close>

theorem ordered_ready_creates_one_pod:
  assumes mono: "\<not> allowsBurst sset"
  shows
    "(\<forall>k \<le> length (p_replicas s). \<forall>s1.
        loop (forwardBody u e sset currentSet updateSet (rev_name currentRevision)
                (rev_name updateRevision) True) [0..<k] s = Continue s1 \<longrightarrow>
        (\<forall>i < k. settled (snd (p_replicas s ! i))) \<and>
        filter isCreate (p_calls s1) = filter isCreate (p_calls s)) \<and>
     (let W = sweeps u e sset currentSet updateSet currentRevision updateRevision revisions
                replicaCount condemned firstUnhealthyPod s
      in filter isCreate (p_calls (flowState W)) = filter isCreate (p_calls s) \<or>
         (\<exists>pp k err. W = Return (flowState W) err \<and>
                      createdAt e s (p_calls (flowState W)) err pp k)) \<and>
     length (filter isCreate
               (snd (updateStatefulSet u e sset currentRevision updateRevision cc pods
                       revisions calls)))
       \<le> length (filter isCreate calls) + 1"
proof -
  have sw: "filter isCreate (p_calls (flowState
               (sweeps u e sset cs us currentRevision updateRevision revisions n cd fp t)))
              = filter isCreate (p_calls t) \<or>
            (\<exists>pp k err.
                sweeps u e sset cs us currentRevision updateRevision revisions n cd fp t
                  = Return (flowState (sweeps u e sset cs us currentRevision updateRevision
                                         revisions n cd fp t)) err \<and>
                createdAt e t (p_calls (flowState
                   (sweeps u e sset cs us currentRevision updateRevision revisions n cd fp t)))
                  err pp k)"
    for cs us n cd fp t
  proof -
    let ?cur = "rev_name currentRevision" and ?upd = "rev_name updateRevision"
    let ?F = "loop (forwardBody u e sset cs us ?cur ?upd True) [0..<length (p_replicas t)] t"
    let ?W = "sweeps u e sset cs us currentRevision updateRevision revisions n cd fp t"
    have F: "case ?F of
               Continue s' \<Rightarrow>
                 p_replicas s' = p_replicas t \<and>
                 (\<forall>i < length (p_replicas t). settled (snd (p_replicas t ! i))) \<and>
                 filter isCreate (p_calls s') = filter isCreate (p_calls t)
             | Return s' err \<Rightarrow>
                 filter isCreate (p_calls s') = filter isCreate (p_calls t) \<or>
                 (\<exists>pp j. createdAt e t (p_calls s') err pp j)
             | Panic s' p \<Rightarrow> False"
      by (rule forwardLoop_monotonic) simp
    show ?thesis
    proof (cases ?F)
      case (Continue s1)
      with F have c1: "filter isCreate (p_calls s1) = filter isCreate (p_calls t)" by simp
      let ?C = "loop (condemnedBody e cd fp ?cur ?upd True) (rev [0..<length cd]) s1"
      have c2: "filter isCreate (p_calls (flowState ?C)) = filter isCreate (p_calls s1)"
        by (rule condemnedLoop_creates)
      have "filter isCreate (p_calls (flowState ?W)) = filter isCreate (p_calls t)"
      proof (cases ?C)
        case (Continue s2)
        have "filter isCreate
                (p_calls (flowState (updateSweep u e sset ?cur updateRevision revisions n s2)))
              = filter isCreate (p_calls s2)"
          by (rule updateSweep_creates)
        with c1 c2 Continue \<open>?F = Continue s1\<close> mono show ?thesis
          by (simp add: sweeps_def Let_def flowState_def)
      next
        case (Return s2 err)
        with c1 c2 \<open>?F = Continue s1\<close> mono show ?thesis
          by (simp add: sweeps_def Let_def flowState_def)
      next
        case (Panic s2 p)
        with c1 c2 \<open>?F = Continue s1\<close> mono show ?thesis
          by (simp add: sweeps_def Let_def flowState_def)
      qed
      then show ?thesis by simp
    next
      case (Return s1 err)
      then have W: "?W = Return s1 err" using mono by (simp add: sweeps_def Let_def)
      from F Return have "filter isCreate (p_calls s1) = filter isCreate (p_calls t) \<or>
                          (\<exists>pp j. createdAt e t (p_calls s1) err pp j)" by simp
      then show ?thesis using W by (auto simp: flowState_def)
    next
      case (Panic s1 p)
      with F show ?thesis by simp
    qed
  qed
  have a: "(\<forall>i < k. settled (snd (p_replicas s ! i))) \<and>
           filter isCreate (p_calls s1) = filter isCreate (p_calls s)"
    if "k \<le> length (p_replicas s)"
       "loop (forwardBody u e sset currentSet updateSet (rev_name currentRevision)
                (rev_name updateRevision) True) [0..<k] s = Continue s1" for k s1
    using forwardLoop_monotonic[OF that(1), where u = u and e = e and sset = sset
            and currentSet = currentSet and updateSet = updateSet
            and cur = "rev_name currentRevision" and upd = "rev_name updateRevision"] that(2)
    by simp
  have c: "length (filter isCreate
               (snd (updateStatefulSet u e sset currentRevision updateRevision cc pods
                       revisions calls)))
             \<le> length (filter isCreate calls) + 1"
  proof -
    let ?cs = "snd (updateStatefulSet u e sset currentRevision updateRevision cc pods
                      revisions calls)"
    from updateStatefulSet_calls[of u e sset currentRevision updateRevision cc pods revisions calls]
    show ?thesis
    proof
      assume "?cs = calls"
      then show ?thesis by simp
    next
      assume "\<exists>currentSet updateSet n condemned firstPod t.
                p_calls t = calls \<and>
                ?cs = p_calls (flowState (sweeps u e sset currentSet updateSet currentRevision
                                            updateRevision revisions n condemned firstPod t))"
      then obtain cs us n cd fp t where t: "p_calls t = calls"
        and cs: "?cs = p_calls (flowState (sweeps u e sset cs us currentRevision
                                 updateRevision revisions n cd fp t))"
        by blast
      from sw[of cs us n cd fp t] show ?thesis
      proof
        assume "filter isCreate (p_calls (flowState
                  (sweeps u e sset cs us currentRevision updateRevision revisions n cd fp t)))
                = filter isCreate (p_calls t)"
        then show ?thesis using cs t by simp
      next
        assume "\<exists>pp k err.
                sweeps u e sset cs us currentRevision updateRevision revisions n cd fp t
                  = Return (flowState (sweeps u e sset cs us currentRevision updateRevision
                                         revisions n cd fp t)) err \<and>
                createdAt e t (p_calls (flowState
                   (sweeps u e sset cs us currentRevision updateRevision revisions n cd fp t)))
                  err pp k"
        then obtain pp k err where "createdAt e t ?cs err pp k" using cs by auto
        then have l: "?cs = butlast ?cs @ [CreateStatefulPod pp]"
          and f: "filter isCreate (butlast ?cs) = filter isCreate calls"
          using t by (simp_all add: createdAt_def)
        have "filter isCreate ?cs = filter isCreate (butlast ?cs @ [CreateStatefulPod pp])"
          using l by simp
        then have "filter isCreate ?cs = filter isCreate calls @ [CreateStatefulPod pp]"
          using f by (simp add: isCreate_simps)
        then show ?thesis by simp
      qed
    qed
  qed
  from a sw[of currentSet updateSet replicaCount condemned firstUnhealthyPod s] c
  show ?thesis unfolding Let_def by blast
qed

theorem ordered_ready_creates_one_pod_witness:
  "\<not> allowsBurst web_set \<and>
   snd (updateStatefulSet web_utils web_env web_set web_v2 web_v2 0
          [web_pod ''web-0'' ''web-v2''] [web_v1, web_v2] [])
     = [CreateStatefulPod
          (Rendered 1,
           newVersionedStatefulSetPod web_utils web_set web_set ''web-v2'' ''web-v2'' 1)] \<and>
   length (filter isCreate
             (snd (updateStatefulSet web_utils web_env web_set web_v2 web_v2 0
                     [web_pod ''web-0'' ''web-v2''] [web_v1, web_v2] [])))
     \<le> length (filter isCreate []) + 1"
proof -
  have mono: "\<not> allowsBurst web_set"
    by (simp add: allowsBurst_def web_set_def)
  have run: "snd (updateStatefulSet web_utils web_env web_set web_v2 web_v2 0
                    [web_pod ''web-0'' ''web-v2''] [web_v1, web_v2] [])
     = [CreateStatefulPod
          (Rendered 1,
           newVersionedStatefulSetPod web_utils web_set web_set ''web-v2'' ''web-v2'' 1)]"
    by (simp add: pass_evals pod_evals web_evals eval_nat_numeral)
  note T = ordered_ready_creates_one_pod[OF mono, THEN conjunct2, THEN conjunct2,
      of web_utils web_env web_v2 web_v2 0 "[web_pod ''web-0'' ''web-v2'']"
         "[web_v1, web_v2]" "[]"]
  from mono run T show ?thesis by blast
qed

section \<open>The three cases of getStatefulSetRevisions\<close>

lemma last_sort_key_Max:
  assumes "xs \<noteq> []"
  shows "f (last (sort_key f xs)) = Max (f ` set xs)"
proof -
  let ?ys = "sort_key f xs"
  have ne: "?ys \<noteq> []" using assms by (metis length_0_conv length_sort)
  have srt: "sorted (map f ?ys)" by (rule sorted_sort_key)
  have mem: "last ?ys \<in> set xs" using ne last_in_set[OF ne] by simp
  have "f y \<le> f (last ?ys)" if "y \<in> set xs" for y
  proof -
    from that have "y \<in> set ?ys" by simp
    then obtain i where i: "i < length ?ys" "?ys ! i = y" by (metis in_set_conv_nth)
    have "map f ?ys ! i \<le> map f ?ys ! (length ?ys - 1)"
      using srt i(1) by (intro sorted_nth_mono) auto
    then show ?thesis using i ne by (simp add: last_conv_nth)
  qed
  then show ?thesis using mem assms
    by (intro Max_eqI[symmetric]) auto
qed

lemma sort_key_Nil_iff: "(sort_key f xs = []) = (xs = [])"
  by (metis length_0_conv length_sort)

lemma nextRevision_sorted:
  "rs \<noteq> [] \<Longrightarrow>
   nextRevision (SortControllerRevisions rs) = Max (rev_revision ` set rs) + 1"
  by (simp add: nextRevision_def SortControllerRevisions_def last_sort_key_Max sort_key_Nil_iff)

lemma newRevision_number:
  "newRevision u sset n cc = Inr cand \<Longrightarrow> rev_revision cand = n"
  by (auto simp: newRevision_def split: sum.splits)

lemma FindEqualRevisions_empty:
  "(FindEqualRevisions (SortControllerRevisions rs) cand = []) =
   (\<forall>r \<in> set rs. \<not> EqualRevision r cand)"
  by (auto simp: FindEqualRevisions_def SortControllerRevisions_def filter_empty_conv)

lemma FindEqualRevisions_last:
  assumes "FindEqualRevisions (SortControllerRevisions rs) cand \<noteq> []"
  shows "last (FindEqualRevisions (SortControllerRevisions rs) cand) \<in> set rs \<and>
         EqualRevision (last (FindEqualRevisions (SortControllerRevisions rs) cand)) cand"
proof -
  from last_in_set[OF assms]
  show ?thesis by (simp add: FindEqualRevisions_def SortControllerRevisions_def)
qed

lemma EqualRevision_last:
  assumes "FindEqualRevisions (SortControllerRevisions rs) cand \<noteq> []"
  shows "EqualRevision r (last (FindEqualRevisions (SortControllerRevisions rs) cand))
           = EqualRevision r cand"
  using FindEqualRevisions_last[OF assms] by (simp add: EqualRevision_def)

lemma newest_equal_found:
  assumes "rs \<noteq> []" "EqualRevision (last (SortControllerRevisions rs)) cand"
  shows "FindEqualRevisions (SortControllerRevisions rs) cand \<noteq> []"
proof -
  have "SortControllerRevisions rs \<noteq> []"
    using assms(1) by (metis SortControllerRevisions_def length_0_conv length_sort)
  from last_in_set[OF this] have "last (SortControllerRevisions rs) \<in> set rs"
    by (simp add: SortControllerRevisions_def)
  with assms(2) show ?thesis by (auto simp: FindEqualRevisions_empty)
qed

text \<open>
  Claim C4. Let \<open>cand\<close> be the candidate that \<^verbatim>\<open>newRevision\<close> builds for the next
  revision number. If it equals the newest existing revision, \<^verbatim>\<open>getStatefulSetRevisions\<close>
  issues no call and the update revision is that newest revision. If it equals some
  existing revision but not the newest, the only call is \<^verbatim>\<open>UpdateControllerRevision\<close>
  on the last equal revision, with a number that is one more than the largest existing
  \<^verbatim>\<open>Revision\<close>; when the call succeeds the update revision is that revision with the
  new number, and no revision is created. If it equals no existing revision, the only
  call is \<^verbatim>\<open>CreateControllerRevision\<close> on the candidate, and the update revision is
  what the store hands back. An error of either call is the error returned.
\<close>

theorem revisions_three_cases:
  assumes cand: "newRevision u sset (nextRevision (SortControllerRevisions rs))
                   (collisionCountOf sset) = Inr cand"
  shows
    "(rs \<noteq> [] \<and> EqualRevision (last (SortControllerRevisions rs)) cand \<longrightarrow>
        snd (getStatefulSetRevisions u e sset rs calls) = calls \<and>
        (\<exists>cur. fst (getStatefulSetRevisions u e sset rs calls)
                 = Inr (cur, last (SortControllerRevisions rs), collisionCountOf sset)))
   \<and> ((\<exists>r \<in> set rs. EqualRevision r cand) \<and>
        \<not> EqualRevision (last (SortControllerRevisions rs)) cand \<longrightarrow>
        (let bumped = last (FindEqualRevisions (SortControllerRevisions rs) cand);
             write = UpdateControllerRevision bumped (rev_revision cand)
         in bumped \<in> set rs \<and> EqualRevision bumped cand \<and>
            rev_revision cand = Max (rev_revision ` set rs) + 1 \<and>
            snd (getStatefulSetRevisions u e sset rs calls) = calls @ [write] \<and>
            (case reply e calls write of
               Some err \<Rightarrow> fst (getStatefulSetRevisions u e sset rs calls) = Inl err
             | None \<Rightarrow>
                 (\<exists>cur. fst (getStatefulSetRevisions u e sset rs calls)
                         = Inr (cur, bumped\<lparr>rev_revision := rev_revision cand\<rparr>,
                                collisionCountOf sset)))))
   \<and> ((\<forall>r \<in> set rs. \<not> EqualRevision r cand) \<longrightarrow>
        (let write = CreateControllerRevision cand (collisionCountOf sset)
         in snd (getStatefulSetRevisions u e sset rs calls) = calls @ [write] \<and>
            (case reply e calls write of
               Some err \<Rightarrow> fst (getStatefulSetRevisions u e sset rs calls) = Inl err
             | None \<Rightarrow>
                 (\<exists>cur. fst (getStatefulSetRevisions u e sset rs calls)
                         = Inr (cur, persisted e calls cand (collisionCountOf sset))))))"
proof -
  let ?G = "getStatefulSetRevisions u e sset rs calls"
  let ?srt = "SortControllerRevisions rs"
  let ?eq = "FindEqualRevisions ?srt cand"
  have idem: "SortControllerRevisions ?srt = ?srt"
    by (simp add: SortControllerRevisions_def sort_key_id_if_sorted)
  have a: "snd ?G = calls \<and> (\<exists>cur. fst ?G = Inr (cur, last ?srt, collisionCountOf sset))"
    if "rs \<noteq> []" "EqualRevision (last ?srt) cand"
  proof -
    from newest_equal_found[OF that] have ne: "?eq \<noteq> []" .
    show ?thesis
      using cand ne that(2)
      by (simp add: getStatefulSetRevisions_def Let_def EqualRevision_last[OF ne])
  qed
  have b: "let bumped = last ?eq; write = UpdateControllerRevision bumped (rev_revision cand)
           in bumped \<in> set rs \<and> EqualRevision bumped cand \<and>
              rev_revision cand = Max (rev_revision ` set rs) + 1 \<and>
              snd ?G = calls @ [write] \<and>
              (case reply e calls write of
                 Some err \<Rightarrow> fst ?G = Inl err
               | None \<Rightarrow> (\<exists>cur. fst ?G = Inr (cur, bumped\<lparr>rev_revision := rev_revision cand\<rparr>,
                                             collisionCountOf sset)))"
    if "\<exists>r \<in> set rs. EqualRevision r cand" "\<not> EqualRevision (last ?srt) cand"
  proof -
    from that(1) have ne: "?eq \<noteq> []" by (simp add: FindEqualRevisions_empty)
    from that(1) have rs: "rs \<noteq> []" by auto
    have num: "rev_revision cand = Max (rev_revision ` set rs) + 1"
      using newRevision_number[OF cand] nextRevision_sorted[OF rs] by simp
    show ?thesis
      using cand ne that(2) num FindEqualRevisions_last[OF ne]
      by (simp add: getStatefulSetRevisions_def Let_def EqualRevision_last[OF ne] invoke_def
               split: option.splits)
  qed
  have c: "let write = CreateControllerRevision cand (collisionCountOf sset)
           in snd ?G = calls @ [write] \<and>
              (case reply e calls write of
                 Some err \<Rightarrow> fst ?G = Inl err
               | None \<Rightarrow> (\<exists>cur. fst ?G = Inr (cur, persisted e calls cand (collisionCountOf sset))))"
    if "\<forall>r \<in> set rs. \<not> EqualRevision r cand"
  proof -
    from that have em: "?eq = []" by (simp add: FindEqualRevisions_empty)
    show ?thesis
      using cand em
      by (simp add: getStatefulSetRevisions_def Let_def invoke_def
               split: option.splits prod.splits)
  qed
  from a b c show ?thesis by blast
qed

theorem revisions_three_cases_witness:
  "newRevision web_utils web_rollback (nextRevision (SortControllerRevisions [web_v3, web_v1, web_v2]))
       (collisionCountOf web_rollback)
     = Inr \<lparr>rev_name = ''web-v1'', rev_revision = 4, rev_data = ''v1''\<rparr> \<and>
   snd (getStatefulSetRevisions web_utils web_env web_rollback [web_v3, web_v1, web_v2] [])
     = [UpdateControllerRevision web_v1 4] \<and>
   (\<exists>cur. fst (getStatefulSetRevisions web_utils web_env web_rollback [web_v3, web_v1, web_v2] [])
           = Inr (cur, web_v1\<lparr>rev_revision := 4\<rparr>, 0))"
proof -
  let ?rs = "[web_v3, web_v1, web_v2]"
  let ?cand = "\<lparr>rev_name = ''web-v1'', rev_revision = 4, rev_data = ''v1''\<rparr>"
  have srt: "SortControllerRevisions ?rs = [web_v1, web_v2, web_v3]"
    by (simp add: SortControllerRevisions_def web_v1_def web_v2_def web_v3_def)
  have cc: "collisionCountOf web_rollback = 0"
    by (simp add: collisionCountOf_def web_rollback_def web_set_def)
  have cand: "newRevision web_utils web_rollback (nextRevision (SortControllerRevisions ?rs))
                (collisionCountOf web_rollback) = Inr ?cand"
    unfolding srt cc
    by (simp add: newRevision_def nextRevision_def web_utils_def web_rollback_def
          web_set_def web_v3_def)
  have eq: "FindEqualRevisions (SortControllerRevisions ?rs) ?cand = [web_v1]"
    unfolding srt
    by (simp add: FindEqualRevisions_def EqualRevision_def web_v1_def web_v2_def web_v3_def)
  have pre: "(\<exists>r \<in> set ?rs. EqualRevision r ?cand) \<and>
             \<not> EqualRevision (last (SortControllerRevisions ?rs)) ?cand"
    unfolding srt
    by (simp add: EqualRevision_def web_v1_def web_v3_def)
  note T = revisions_three_cases[OF cand, of web_env "[]", THEN conjunct2, THEN conjunct1]
  from T pre
  have "let bumped = last (FindEqualRevisions (SortControllerRevisions ?rs) ?cand);
            write = UpdateControllerRevision bumped (rev_revision ?cand)
        in bumped \<in> set ?rs \<and> EqualRevision bumped ?cand \<and>
           rev_revision ?cand = Max (rev_revision ` set ?rs) + 1 \<and>
           snd (getStatefulSetRevisions web_utils web_env web_rollback ?rs []) = [] @ [write] \<and>
           (case reply web_env [] write of
              Some err \<Rightarrow> fst (getStatefulSetRevisions web_utils web_env web_rollback ?rs []) = Inl err
            | None \<Rightarrow>
                (\<exists>cur. fst (getStatefulSetRevisions web_utils web_env web_rollback ?rs [])
                        = Inr (cur, bumped\<lparr>rev_revision := rev_revision ?cand\<rparr>,
                               collisionCountOf web_rollback)))"
    by (rule mp)
  then have "snd (getStatefulSetRevisions web_utils web_env web_rollback ?rs [])
               = [UpdateControllerRevision web_v1 4] \<and>
             (\<exists>cur. fst (getStatefulSetRevisions web_utils web_env web_rollback ?rs [])
                     = Inr (cur, web_v1\<lparr>rev_revision := 4\<rparr>, 0))"
    by (simp add: Let_def eq cc web_env_def)
  with cand show ?thesis by simp
qed

section \<open>Duplicate and unparseable ordinals\<close>

lemma slots_pods:
  assumes "Some pp \<in> set (pt_replicas (partitionPods c up n pps
                      \<lparr>pt_status = st, pt_replicas = replicate (nat n) None,
                       pt_condemned = []\<rparr>))"
  shows "pp \<in> set pps \<and> 0 \<le> getOrdinal (snd pp)"
proof -
  let ?pt0 = "\<lparr>pt_status = st, pt_replicas = replicate (nat n) None, pt_condemned = []\<rparr>"
  let ?slots = "pt_replicas (partitionPods c up n pps ?pt0)"
  from assms obtain ord where ord: "ord < length ?slots" "?slots ! ord = Some pp"
    by (metis in_set_conv_nth)
  have len: "length ?slots = nat n" by (simp add: partitionPods_length)
  have "?slots ! ord =
          (case lastWithOrdinal ord pps of None \<Rightarrow> pt_replicas ?pt0 ! ord | Some q \<Rightarrow> Some q)"
    using ord(1) len by (intro partitionPods_nth) simp_all
  with ord len have "lastWithOrdinal ord pps = Some pp"
    by (simp split: option.splits)
  from lastWithOrdinal_mem[OF this] show ?thesis by simp
qed

lemma snapshot_refs: "pp \<in> set (snapshot pods) \<Longrightarrow> \<exists>i. fst pp = Listed i"
  by (cases pp) (auto simp: snapshot_def dest!: set_zip_leftD)

lemma snapshot_snoc: "snapshot (pods @ [p]) = snapshot pods @ [(Listed (length pods), p)]"
  by (simp add: snapshot_def)

lemma snapshot_nth: "i < length pods \<Longrightarrow> snapshot pods ! i = (Listed i, pods ! i)"
  by (simp add: snapshot_def)

lemma snapshot_length: "length (snapshot pods) = length pods"
  by (simp add: snapshot_def)

lemma lastWithOrdinal_filter:
  "lastWithOrdinal ord pps =
     (if filter (\<lambda>pp. getOrdinal (snd pp) = int ord) pps = [] then None
      else Some (last (filter (\<lambda>pp. getOrdinal (snd pp) = int ord) pps)))"
  by (simp add: lastWithOrdinal_def split: list.split)

lemma lastWithOrdinal_snoc:
  "lastWithOrdinal ord (pps @ [pp]) =
     (if getOrdinal (snd pp) = int ord then Some pp else lastWithOrdinal ord pps)"
  by (simp add: lastWithOrdinal_filter)

text \<open>The slot of an ordinal is looked up in the snapshot from its end.\<close>

lemma lastWithOrdinal_snapshot:
  "case lastWithOrdinal ord (snapshot pods) of
     None \<Rightarrow> \<forall>k < length pods. getOrdinal (pods ! k) \<noteq> int ord
   | Some pp \<Rightarrow>
       \<exists>k < length pods. pp = (Listed k, pods ! k) \<and> getOrdinal (pods ! k) = int ord \<and>
          (\<forall>m. k < m \<and> m < length pods \<longrightarrow> getOrdinal (pods ! m) \<noteq> int ord)"
proof (induction pods rule: rev_induct)
  case Nil
  show ?case by (simp add: snapshot_def lastWithOrdinal_Nil)
next
  case (snoc p pods)
  show ?case
  proof (cases "getOrdinal p = int ord")
    case True
    then have "lastWithOrdinal ord (snapshot (pods @ [p])) = Some (Listed (length pods), p)"
      by (simp add: snapshot_snoc lastWithOrdinal_snoc)
    moreover have "\<exists>k < length (pods @ [p]).
        (Listed (length pods), p) = (Listed k, (pods @ [p]) ! k) \<and>
        getOrdinal ((pods @ [p]) ! k) = int ord \<and>
        (\<forall>m. k < m \<and> m < length (pods @ [p]) \<longrightarrow> getOrdinal ((pods @ [p]) ! m) \<noteq> int ord)"
      using True by (intro exI[of _ "length pods"]) simp
    ultimately show ?thesis by simp
  next
    case False
    then have eq: "lastWithOrdinal ord (snapshot (pods @ [p])) = lastWithOrdinal ord (snapshot pods)"
      by (simp add: snapshot_snoc lastWithOrdinal_snoc)
    show ?thesis
    proof (cases "lastWithOrdinal ord (snapshot pods)")
      case None
      with snoc.IH have "\<forall>k < length pods. getOrdinal (pods ! k) \<noteq> int ord" by simp
      with False have "\<forall>k < length (pods @ [p]). getOrdinal ((pods @ [p]) ! k) \<noteq> int ord"
        by (simp add: nth_append less_Suc_eq)
      with None eq show ?thesis by simp
    next
      case (Some pp)
      with snoc.IH obtain k where k: "k < length pods" "pp = (Listed k, pods ! k)"
          "getOrdinal (pods ! k) = int ord"
          "\<forall>m. k < m \<and> m < length pods \<longrightarrow> getOrdinal (pods ! m) \<noteq> int ord"
        by auto
      have "\<forall>m. k < m \<and> m < length (pods @ [p]) \<longrightarrow> getOrdinal ((pods @ [p]) ! m) \<noteq> int ord"
        using k(4) False by (simp add: nth_append less_Suc_eq)
      with k(1,2,3) have "\<exists>k < length (pods @ [p]).
          pp = (Listed k, (pods @ [p]) ! k) \<and> getOrdinal ((pods @ [p]) ! k) = int ord \<and>
          (\<forall>m. k < m \<and> m < length (pods @ [p]) \<longrightarrow> getOrdinal ((pods @ [p]) ! m) \<noteq> int ord)"
        by (intro exI[of _ k]) (simp add: nth_append)
      with Some eq show ?thesis by simp
    qed
  qed
qed

lemma duplicate_slot:
  assumes n: "0 \<le> n" and ij: "i < j" "j < length pods"
    and same: "getOrdinal (pods ! i) = getOrdinal (pods ! j)"
    and range: "0 \<le> getOrdinal (pods ! j)" "getOrdinal (pods ! j) < n"
  shows "(\<exists>k. j \<le> k \<and> k < length pods \<and> getOrdinal (pods ! k) = getOrdinal (pods ! j) \<and>
            (\<forall>m. k < m \<and> m < length pods \<longrightarrow> getOrdinal (pods ! m) \<noteq> getOrdinal (pods ! j)) \<and>
            pt_replicas (partitionPods cur upd n (snapshot pods)
                \<lparr>pt_status = st, pt_replicas = replicate (nat n) None, pt_condemned = []\<rparr>)
              ! nat (getOrdinal (pods ! j)) = Some (Listed k, pods ! k)) \<and>
         Some (Listed i, pods ! i) \<notin> set (pt_replicas (partitionPods cur upd n (snapshot pods)
                \<lparr>pt_status = st, pt_replicas = replicate (nat n) None, pt_condemned = []\<rparr>)) \<and>
         (Listed i, pods ! i) \<notin> set (pt_condemned (partitionPods cur upd n (snapshot pods)
                \<lparr>pt_status = st, pt_replicas = replicate (nat n) None, pt_condemned = []\<rparr>))"
proof -
  let ?init = "\<lparr>pt_status = st, pt_replicas = replicate (nat n) None, pt_condemned = []\<rparr>"
  let ?pt = "partitionPods cur upd n (snapshot pods) ?init"
  let ?o = "nat (getOrdinal (pods ! j))"
  have o: "int ?o = getOrdinal (pods ! j)" "?o < nat n" using range by simp_all
  have slot: "pt_replicas ?pt ! ord = lastWithOrdinal ord (snapshot pods)" if "ord < nat n" for ord
  proof -
    have "pt_replicas ?pt ! ord =
            (case lastWithOrdinal ord (snapshot pods) of
               None \<Rightarrow> pt_replicas ?init ! ord | Some q \<Rightarrow> Some q)"
      using that by (intro partitionPods_nth) simp_all
    then show ?thesis using that by (simp split: option.splits)
  qed
  have "\<exists>k < length pods. lastWithOrdinal ?o (snapshot pods) = Some (Listed k, pods ! k) \<and>
          getOrdinal (pods ! k) = int ?o \<and>
          (\<forall>m. k < m \<and> m < length pods \<longrightarrow> getOrdinal (pods ! m) \<noteq> int ?o)"
  proof (cases "lastWithOrdinal ?o (snapshot pods)")
    case None
    with lastWithOrdinal_snapshot[where ord = ?o and pods = pods] ij(2) o(1) show ?thesis by auto
  next
    case (Some pp)
    with lastWithOrdinal_snapshot[where ord = ?o and pods = pods] show ?thesis by auto
  qed
  then obtain k where k: "k < length pods"
      "lastWithOrdinal ?o (snapshot pods) = Some (Listed k, pods ! k)"
      "getOrdinal (pods ! k) = int ?o"
      "\<forall>m. k < m \<and> m < length pods \<longrightarrow> getOrdinal (pods ! m) \<noteq> int ?o"
    by blast
  have jk: "j \<le> k"
  proof (rule ccontr)
    assume "\<not> j \<le> k"
    with k(4) ij(2) have "getOrdinal (pods ! j) \<noteq> int ?o" by simp
    with o(1) show False by simp
  qed
  have first: "\<exists>k. j \<le> k \<and> k < length pods \<and> getOrdinal (pods ! k) = getOrdinal (pods ! j) \<and>
            (\<forall>m. k < m \<and> m < length pods \<longrightarrow> getOrdinal (pods ! m) \<noteq> getOrdinal (pods ! j)) \<and>
            pt_replicas ?pt ! ?o = Some (Listed k, pods ! k)"
    using jk k slot[OF o(2)] o(1) by (intro exI[of _ k]) simp
  have len: "length (pt_replicas ?pt) = nat n" by (simp add: partitionPods_length)
  have second: "Some (Listed i, pods ! i) \<notin> set (pt_replicas ?pt)"
  proof
    assume "Some (Listed i, pods ! i) \<in> set (pt_replicas ?pt)"
    then obtain ord where ord: "ord < nat n" "pt_replicas ?pt ! ord = Some (Listed i, pods ! i)"
      using len by (metis in_set_conv_nth)
    with slot[OF ord(1)] have l: "lastWithOrdinal ord (snapshot pods) = Some (Listed i, pods ! i)"
      by simp
    from lastWithOrdinal_mem[OF l] have "getOrdinal (pods ! i) = int ord" by simp
    with same o(1) have "ord = ?o" by simp
    with l k(2) have "i = k" by simp
    with jk ij(1) show False by simp
  qed
  have third: "(Listed i, pods ! i) \<notin> set (pt_condemned ?pt)"
    using n same range by (simp add: partitionPods_condemned)
  from first second third show ?thesis by blast
qed

text \<open>
  Claim C5 as stated fails. With one replica and the pods \<open>web-00\<close> and \<open>web-0\<close> in
  this order, both of ordinal 0, the slot holds the second pod, not the first; and with
  the identity check of the specification and a Pod Controller that never fails, the
  pass returns the status of the snapshot with a nil error and without any call.
\<close>

theorem duplicate_ordinal_counterexample:
  "getOrdinal (web_pod ''web-00'' ''web-v1'') = 0 \<and>
   getOrdinal (web_pod ''web-0'' ''web-v1'') = 0 \<and>
   pt_replicas (partitionPods ''web-v1'' ''web-v1'' 1
       (snapshot [web_pod ''web-00'' ''web-v1'', web_pod ''web-0'' ''web-v1''])
       \<lparr>pt_status = seedStatus web_set web_v1 web_v1 0,
        pt_replicas = replicate (nat 1) None, pt_condemned = []\<rparr>)
     = [Some (Listed 1, web_pod ''web-0'' ''web-v1'')] \<and>
   updateStatefulSet web_strict web_env (web_set\<lparr>set_replicas := Some 1\<rparr>) web_v1 web_v1 0
       [web_pod ''web-00'' ''web-v1'', web_pod ''web-0'' ''web-v1''] [web_v1] []
     = (Returned
          (Some (observedStatus (web_set\<lparr>set_replicas := Some 1\<rparr>) web_v1 web_v1 0
                   [web_pod ''web-00'' ''web-v1'', web_pod ''web-0'' ''web-v1'']), None),
        [])"
  by (simp add: pass_evals pod_evals web_evals web_strict_def nameMatches_def
        observedStatus_def eval_nat_numeral)

text \<open>
  Claim C5, as amended. The partitioning step assigns \<^verbatim>\<open>replicas[o]\<close> for every pod
  of ordinal \<open>o\<close> in turn. So the slot ends up holding the pod of that ordinal that
  occurs last in the snapshot (and stays empty when there is none): of two pods
  \<open>i < j\<close> of the snapshot with the same ordinal below \<^verbatim>\<open>replicas\<close>, the slot holds
  the one at \<open>j\<close> or a later one, and the pod at \<open>i\<close> is dropped, it is neither in
  \<^verbatim>\<open>replicas\<close> nor in \<^verbatim>\<open>condemned\<close>. The duplicate is not reported: an error that the
  pass returns is the error of \<^verbatim>\<open>ApplyRevision\<close>, the error of resolving
  \<^verbatim>\<open>MaxUnavailable\<close>, or the reply to the last call, a call that the pass added. A
  pod whose ordinal is negative is placed neither in \<^verbatim>\<open>replicas\<close> nor in
  \<^verbatim>\<open>condemned\<close>, and the pass does not delete it.
\<close>

theorem partition_keeps_last_duplicate:
  assumes n: "0 \<le> n"
  shows
    "(let pt = partitionPods cur upd n (snapshot pods)
                 \<lparr>pt_status = st, pt_replicas = replicate (nat n) None, pt_condemned = []\<rparr>
      in (\<forall>ord < nat n. pt_replicas pt ! ord = lastWithOrdinal ord (snapshot pods)) \<and>
         (\<forall>i j. i < j \<and> j < length pods \<and> getOrdinal (pods ! i) = getOrdinal (pods ! j) \<and>
                0 \<le> getOrdinal (pods ! j) \<and> getOrdinal (pods ! j) < n \<longrightarrow>
            (\<exists>k. j \<le> k \<and> k < length pods \<and>
                 getOrdinal (pods ! k) = getOrdinal (pods ! j) \<and>
                 (\<forall>m. k < m \<and> m < length pods \<longrightarrow>
                        getOrdinal (pods ! m) \<noteq> getOrdinal (pods ! j)) \<and>
                 pt_replicas pt ! nat (getOrdinal (pods ! j)) = Some (Listed k, pods ! k)) \<and>
            Some (Listed i, pods ! i) \<notin> set (pt_replicas pt) \<and>
            (Listed i, pods ! i) \<notin> set (pt_condemned pt)) \<and>
         (\<forall>pp \<in> set (snapshot pods). getOrdinal (snd pp) < 0 \<longrightarrow>
             Some pp \<notin> set (pt_replicas pt) \<and> pp \<notin> set (pt_condemned pt))) \<and>
     (\<forall>pp \<in> set (snapshot pods). getOrdinal (snd pp) < 0 \<longrightarrow>
        DeleteStatefulPod pp
          \<in> set (snd (updateStatefulSet u e sset currentRevision updateRevision cc pods
                       revisions calls))
        \<longrightarrow> DeleteStatefulPod pp \<in> set calls) \<and>
     (\<forall>status err cs.
        updateStatefulSet u e sset currentRevision updateRevision cc pods revisions calls
          = (Returned (status, Some err), cs)
        \<longrightarrow> ApplyRevision u sset currentRevision = Inl err \<or>
            ApplyRevision u sset updateRevision = Inl err \<or>
            (\<exists>k. set_replicas sset = Some k \<and> resolveStrategy sset k = Fails err) \<or>
            repliedAfter e calls cs err)"
proof -
  let ?init = "\<lparr>pt_status = st, pt_replicas = replicate (nat n) None, pt_condemned = []\<rparr>"
  let ?pt = "partitionPods cur upd n (snapshot pods) ?init"
  have a: "pt_replicas ?pt ! ord = lastWithOrdinal ord (snapshot pods)" if "ord < nat n" for ord
  proof -
    have "pt_replicas ?pt ! ord =
            (case lastWithOrdinal ord (snapshot pods) of
               None \<Rightarrow> pt_replicas ?init ! ord | Some q \<Rightarrow> Some q)"
      using that by (intro partitionPods_nth) simp_all
    then show ?thesis using that by (simp split: option.splits)
  qed
  have b: "Some pp \<notin> set (pt_replicas ?pt) \<and> pp \<notin> set (pt_condemned ?pt)"
    if "getOrdinal (snd pp) < 0" for pp
  proof -
    have "Some pp \<notin> set (pt_replicas ?pt)" using slots_pods[of pp cur upd n "snapshot pods" st] that
      by auto
    moreover have "pp \<notin> set (pt_condemned ?pt)"
      using n that by (simp add: partitionPods_condemned)
    ultimately show ?thesis ..
  qed
  let ?Q = "\<lambda>pp. \<not> (pp \<in> set (snapshot pods) \<and> getOrdinal (snd pp) < 0)"
  let ?R = "updateStatefulSet u e sset currentRevision updateRevision cc pods revisions calls"
  have "callsOn ?Q calls (snd ?R)"
  proof (rule updateStatefulSet_targets)
    show "?Q pp" if "0 \<le> getOrdinal (snd pp)" for pp using that by simp
    show "?Q (Rendered i, p)" for i p using snapshot_refs[of "(Rendered i, p)" pods] by auto
    show "?Q (Recreated i, p)" for i p using snapshot_refs[of "(Recreated i, p)" pods] by auto
  qed
  then have c: "DeleteStatefulPod pp \<in> set (snd ?R) \<longrightarrow> DeleteStatefulPod pp \<in> set calls"
    if "pp \<in> set (snapshot pods)" "getOrdinal (snd pp) < 0" for pp
    using that by (auto simp: callsOn_def list_all_iff callTarget_simps)
  have d: "ApplyRevision u sset currentRevision = Inl err \<or>
           ApplyRevision u sset updateRevision = Inl err \<or>
           (\<exists>k. set_replicas sset = Some k \<and> resolveStrategy sset k = Fails err) \<or>
           repliedAfter e calls cs err"
    if "?R = (Returned (status, Some err), cs)" for status err cs
    using that by (rule updateStatefulSet_error)
  note dup = duplicate_slot[where n = n and pods = pods and cur = cur and upd = upd and st = st]
  from a b c d dup[OF n] show ?thesis unfolding Let_def by blast
qed

theorem partition_keeps_last_duplicate_witness:
  "(0::int) \<le> 1 \<and>
   pt_replicas (partitionPods ''web-v1'' ''web-v1'' 1
       (snapshot [web_pod ''web-0'' ''web-v1'', web_pod ''web-00'' ''web-v1'',
                  web_pod ''web-x'' ''web-v1''])
       \<lparr>pt_status = seedStatus web_set web_v1 web_v1 0,
        pt_replicas = replicate (nat 1) None, pt_condemned = []\<rparr>) ! 0
     = Some (Listed 1, web_pod ''web-00'' ''web-v1'') \<and>
   Some (Listed 0, web_pod ''web-0'' ''web-v1'')
     \<notin> set (pt_replicas (partitionPods ''web-v1'' ''web-v1'' 1
         (snapshot [web_pod ''web-0'' ''web-v1'', web_pod ''web-00'' ''web-v1'',
                    web_pod ''web-x'' ''web-v1''])
         \<lparr>pt_status = seedStatus web_set web_v1 web_v1 0,
          pt_replicas = replicate (nat 1) None, pt_condemned = []\<rparr>)) \<and>
   DeleteStatefulPod (Listed 2, web_pod ''web-x'' ''web-v1'')
     \<notin> set (snd (updateStatefulSet web_strict web_down (web_set\<lparr>set_replicas := Some 1\<rparr>)
                   web_v1 web_v1 0
                   [web_pod ''web-0'' ''web-v1'', web_pod ''web-00'' ''web-v1'',
                    web_pod ''web-x'' ''web-v1''] [web_v1] [])) \<and>
   snd (updateStatefulSet web_strict web_down (web_set\<lparr>set_replicas := Some 1\<rparr>)
          web_v1 web_v1 0
          [web_pod ''web-0'' ''web-v1'', web_pod ''web-00'' ''web-v1'',
           web_pod ''web-x'' ''web-v1''] [web_v1] [])
     = [UpdateStatefulPod (web_pod ''web-00'' ''web-v1'')] \<and>
   repliedAfter web_down []
     (snd (updateStatefulSet web_strict web_down (web_set\<lparr>set_replicas := Some 1\<rparr>)
             web_v1 web_v1 0
             [web_pod ''web-0'' ''web-v1'', web_pod ''web-00'' ''web-v1'',
              web_pod ''web-x'' ''web-v1''] [web_v1] []))
     (Error ''rejected'')"
proof -
  let ?pods = "[web_pod ''web-0'' ''web-v1'', web_pod ''web-00'' ''web-v1'',
                web_pod ''web-x'' ''web-v1'']"
  let ?x = "(Listed 2, web_pod ''web-x'' ''web-v1'')"
  let ?set = "web_set\<lparr>set_replicas := Some 1\<rparr>"
  let ?part = "partitionPods ''web-v1'' ''web-v1'' 1 (snapshot ?pods)
               \<lparr>pt_status = seedStatus web_set web_v1 web_v1 0,
                pt_replicas = replicate (nat 1) None, pt_condemned = []\<rparr>"
  let ?R = "updateStatefulSet web_strict web_down ?set web_v1 web_v1 0 ?pods [web_v1] []"
  have n: "(0::int) \<le> 1" by simp
  note T = partition_keeps_last_duplicate[OF n, where cur = "''web-v1''" and upd = "''web-v1''"
      and pods = ?pods and st = "seedStatus web_set web_v1 web_v1 0" and u = web_strict
      and e = web_down and sset = ?set and currentRevision = web_v1
      and updateRevision = web_v1 and cc = 0 and revisions = "[web_v1]"
      and calls = "[]"]
  note P = T[unfolded Let_def, THEN conjunct1]
  note D = P[THEN conjunct2, THEN conjunct1, rule_format, of 0 1]
  note X = T[unfolded Let_def, THEN conjunct2, THEN conjunct1, rule_format, of ?x]
  note E = T[unfolded Let_def, THEN conjunct2, THEN conjunct2, rule_format]
  have ords: "getOrdinal (?pods ! 0) = 0" "getOrdinal (?pods ! 1) = 0"
      "getOrdinal (?pods ! 2) = - 1"
    by (simp_all add: pod_evals)
  have snap: "?x \<in> set (snapshot ?pods)"
    by (simp add: snapshot_def upt_rec[of 0] upt_rec[of 1] upt_rec[of 2])
  have dup: "(0::nat) < 1 \<and> 1 < length ?pods \<and> getOrdinal (?pods ! 0) = getOrdinal (?pods ! 1) \<and>
             0 \<le> getOrdinal (?pods ! 1) \<and> getOrdinal (?pods ! 1) < 1"
    using ords by simp
  from D[OF dup]
  have kept: "\<exists>k. 1 \<le> k \<and> k < length ?pods \<and> getOrdinal (?pods ! k) = getOrdinal (?pods ! 1) \<and>
                pt_replicas ?part ! nat (getOrdinal (?pods ! 1)) = Some (Listed k, ?pods ! k)"
    and dropped: "Some (Listed 0, ?pods ! 0) \<notin> set (pt_replicas ?part)"
    by blast+
  from kept obtain k where k: "1 \<le> k" "k < 3" "getOrdinal (?pods ! k) = 0"
      "pt_replicas ?part ! 0 = Some (Listed k, ?pods ! k)"
    using ords by auto
  from k(1,2) have "k = 1 \<or> k = 2" by auto
  with k(3) ords(3) have "k = 1" by auto
  with k(4) have slot: "pt_replicas ?part ! 0 = Some (Listed 1, web_pod ''web-00'' ''web-v1'')"
    by simp
  from dropped have drop: "Some (Listed 0, web_pod ''web-0'' ''web-v1'') \<notin> set (pt_replicas ?part)"
    by simp
  have neg: "getOrdinal (snd ?x) < 0" using ords(3) by simp
  have nodel: "DeleteStatefulPod ?x \<notin> set (snd ?R)"
  proof
    assume "DeleteStatefulPod ?x \<in> set (snd ?R)"
    with X[OF snap neg] show False by simp
  qed
  let ?st = "observedStatus ?set web_v1 web_v1 0 ?pods"
  let ?rs = "[(Listed 1, web_pod ''web-00'' ''web-v1'')]"
  let ?pt = "\<lparr>pt_status = ?st, pt_replicas = [Some (Listed 1, web_pod ''web-00'' ''web-v1'')],
              pt_condemned = []\<rparr>"
  let ?scan = "\<lparr>us_unhealthy = 0, us_firstOrdinal = MaxInt32, us_firstPod = None\<rparr>"
  have a: "ApplyRevision web_strict ?set web_v1 = Inr (?set\<lparr>set_template := ''v1''\<rparr>)"
    by (simp add: web_strict_def web_evals)
  have r: "set_replicas ?set = Some 1" by simp
  have p: "partitionPods (rev_name web_v1) (rev_name web_v1) 1 (snapshot ?pods)
             \<lparr>pt_status = seedStatus ?set web_v1 web_v1 0,
              pt_replicas = replicate (nat 1) None, pt_condemned = []\<rparr> = ?pt"
    by (simp add: snapshot_def placePod_def countPod_def seedStatus_def observedStatus_def
          pod_evals web_evals Let_def eval_nat_numeral)
  have f: "fillReplicas web_strict (?set\<lparr>set_template := ''v1''\<rparr>)
             (?set\<lparr>set_template := ''v1''\<rparr>) (rev_name web_v1) (rev_name web_v1)
             (pt_replicas ?pt) = ?rs"
    by (simp add: fillReplicas_def)
  have c: "sortCondemned (pt_condemned ?pt) = []"
    by (simp add: sortCondemned_def)
  have s: "findFirstUnhealthy ?rs [] = ?scan"
    by (simp add: findFirstUnhealthy_def scanPod_def pod_evals)
  have h: "\<not> (us_unhealthy ?scan > 0 \<and> us_firstPod ?scan = None)" by simp
  have d: "set_deletionTimestamp ?set = None" by (simp add: web_set_def)
  have sw: "sweeps web_strict web_down ?set (?set\<lparr>set_template := ''v1''\<rparr>)
              (?set\<lparr>set_template := ''v1''\<rparr>) web_v1 web_v1 [web_v1] 1 []
              (us_firstPod ?scan)
              \<lparr>p_status = pt_status ?pt, p_replicas = ?rs, p_calls = [], p_unavailable = []\<rparr>
            = Return \<lparr>p_status = ?st, p_replicas = ?rs,
                      p_calls = [UpdateStatefulPod (web_pod ''web-00'' ''web-v1'')],
                      p_unavailable = []\<rparr> (Some (Error ''rejected''))"
    by (simp add: sweeps_def forwardBody_def recreateFailed_def invoke_def allowsBurst_def
          Let_def pod_evals web_evals web_strict_def web_down_def nameMatches_def)
  have R: "?R = (Returned (Some ?st, Some (Error ''rejected'')),
                 [UpdateStatefulPod (web_pod ''web-00'' ''web-v1'')])"
    by (simp add: updateStatefulSet_stages[OF a a r n p f c s h d sw])
  then have calls: "snd ?R = [UpdateStatefulPod (web_pod ''web-00'' ''web-v1'')]" by simp
  have "ApplyRevision web_strict ?set web_v1 \<noteq> Inl (Error ''rejected'')"
       "\<not> (\<exists>k. set_replicas ?set = Some k \<and> resolveStrategy ?set k = Fails (Error ''rejected''))"
    by (simp_all add: web_strict_def web_evals resolveStrategy_def
          GetValueFromIntOrPercent_def ValueOrDefault_def)
  with E[OF R] have "repliedAfter web_down [] [UpdateStatefulPod (web_pod ''web-00'' ''web-v1'')]
                       (Error ''rejected'')"
    by blast
  with calls have rep: "repliedAfter web_down [] (snd ?R) (Error ''rejected'')" by simp
  from n slot drop nodel calls rep show ?thesis by blast
qed

section \<open>Truncating the history\<close>

lemma deleteRevisions_calls:
  "deleteRevisions e rs cs = (err, cs') \<Longrightarrow>
   (err = None \<and> cs' = cs @ map DeleteControllerRevision rs) \<or>
   (\<exists>k < length rs. err = reply e (cs @ map DeleteControllerRevision (take k rs))
                              (DeleteControllerRevision (rs ! k)) \<and>
       err \<noteq> None \<and>
       cs' = cs @ map DeleteControllerRevision (take (Suc k) rs))"
proof (induction rs arbitrary: cs)
  case Nil
  then show ?case by simp
next
  case (Cons r rs)
  show ?case
  proof (cases "reply e cs (DeleteControllerRevision r)")
    case None
    with Cons.prems have "deleteRevisions e rs (cs @ [DeleteControllerRevision r]) = (err, cs')"
      by (simp add: invoke_def)
    from Cons.IH[OF this] show ?thesis
    proof
      assume "err = None \<and> cs' = (cs @ [DeleteControllerRevision r]) @ map DeleteControllerRevision rs"
      then show ?thesis by simp
    next
      assume "\<exists>k<length rs.
                err = reply e ((cs @ [DeleteControllerRevision r]) @ map DeleteControllerRevision (take k rs))
                        (DeleteControllerRevision (rs ! k)) \<and>
                err \<noteq> None \<and>
                cs' = (cs @ [DeleteControllerRevision r]) @ map DeleteControllerRevision (take (Suc k) rs)"
      then obtain k where k: "k < length rs"
        "err = reply e ((cs @ [DeleteControllerRevision r]) @ map DeleteControllerRevision (take k rs))
                        (DeleteControllerRevision (rs ! k))"
        "err \<noteq> None"
        "cs' = (cs @ [DeleteControllerRevision r]) @ map DeleteControllerRevision (take (Suc k) rs)"
        by blast
      have "Suc k < length (r # rs)" using k(1) by simp
      moreover have "err = reply e (cs @ map DeleteControllerRevision (take (Suc k) (r # rs)))
                              (DeleteControllerRevision ((r # rs) ! Suc k))"
        using k(2) by simp
      moreover have "cs' = cs @ map DeleteControllerRevision (take (Suc (Suc k)) (r # rs))"
        using k(4) by simp
      ultimately show ?thesis using k(3) by blast
    qed
  next
    case (Some err')
    with Cons.prems have "err = Some err'" "cs' = cs @ [DeleteControllerRevision r]"
      by (simp_all add: invoke_def)
    then have "0 < length (r # rs) \<and>
               err = reply e (cs @ map DeleteControllerRevision (take 0 (r # rs)))
                       (DeleteControllerRevision ((r # rs) ! 0)) \<and>
               err \<noteq> None \<and>
               cs' = cs @ map DeleteControllerRevision (take (Suc 0) (r # rs))"
      using Some by simp
    then show ?thesis by blast
  qed
qed

lemma sorted_filter_prefix_le:
  assumes "sorted (map f xs)" "d \<in> set (take k (filter P xs))" "r \<in> set (drop k (filter P xs))"
  shows "f d \<le> f r"
proof -
  let ?h = "filter P xs"
  have srt: "sorted (map f ?h)" using assms(1) by (rule sorted_filter)
  from assms(2) obtain i where i: "i < length (take k ?h)" "take k ?h ! i = d"
    by (metis in_set_conv_nth)
  from assms(3) obtain j where j: "j < length (drop k ?h)" "drop k ?h ! j = r"
    by (metis in_set_conv_nth)
  have "i \<le> k + j" "k + j < length ?h" using i(1) j(1) by auto
  then have "map f ?h ! i \<le> map f ?h ! (k + j)"
    using srt by (intro sorted_nth_mono) auto
  moreover have "?h ! i = d" using i by simp
  moreover have "?h ! (k + j) = r" using j by simp
  ultimately show ?thesis using \<open>k + j < length ?h\<close> \<open>i \<le> k + j\<close> by simp
qed

text \<open>
  Claim C7. With a revision history limit that is not negative: the names of the current
  revision, of the update revision and of the revision of every pod are live; the
  history is the list of the revisions whose name is not live, in the order given;
  \<^verbatim>\<open>truncateHistory\<close> issues \<^verbatim>\<open>DeleteControllerRevision\<close> for the first
  \<open>length history - limit\<close> of them, in that order, and nothing else, stops at the first
  delete that fails and returns its error, and returns nil otherwise; no revision it
  deletes is live; the revisions of the history that it does not delete are at most
  \<open>limit\<close>; on a list sorted by \<^verbatim>\<open>Revision\<close> no deleted revision has a higher number
  than one of the history that is kept; and when the history has at most \<open>limit\<close>
  revisions it returns nil without any call.
\<close>

theorem truncateHistory_deletes_oldest:
  assumes limit: "set_revisionHistoryLimit sset = Some limit" "0 \<le> limit"
  shows
    "(let history = filter (\<lambda>r. \<not> isLive pods current update (rev_name r)) revisions;
          doomed = take (length history - nat limit) history;
          kept = drop (length history - nat limit) history;
          T = truncateHistory e sset pods revisions current update calls
      in isLive pods current update (rev_name current) \<and>
         isLive pods current update (rev_name update) \<and>
         (\<forall>p \<in> set pods. isLive pods current update (getPodRevision p)) \<and>
         (\<forall>r \<in> set doomed. r \<in> set revisions \<and> \<not> isLive pods current update (rev_name r)) \<and>
         int (length kept) \<le> limit \<and>
         (sorted (map rev_revision revisions) \<longrightarrow>
            (\<forall>d \<in> set doomed. \<forall>r \<in> set kept. rev_revision d \<le> rev_revision r)) \<and>
         (int (length history) \<le> limit \<longrightarrow> T = (Returned None, calls)) \<and>
         ((fst T = Returned None \<and>
           snd T = calls @ map (\<lambda>r. DeleteControllerRevision (Some r)) doomed) \<or>
          (\<exists>k < length doomed. \<exists>err.
              fst T = Returned (Some err) \<and>
              reply e (calls @ map (\<lambda>r. DeleteControllerRevision (Some r)) (take k doomed))
                    (DeleteControllerRevision (Some (doomed ! k))) = Some err \<and>
              snd T = calls @ map (\<lambda>r. DeleteControllerRevision (Some r))
                                 (take (Suc k) doomed))))"
proof -
  let ?live = "isLive pods current update"
  let ?h = "filter (\<lambda>r. \<not> ?live (rev_name r)) revisions"
  let ?n = "length ?h - nat limit"
  let ?doomed = "take ?n ?h"
  let ?kept = "drop ?n ?h"
  let ?T = "truncateHistory e sset pods revisions current update calls"
  let ?D = "\<lambda>r. DeleteControllerRevision (Some r)"
  have live: "?live (rev_name current)" "?live (rev_name update)"
    "\<forall>p \<in> set pods. ?live (getPodRevision p)"
    by (simp_all add: isLive_def)
  have doomed: "\<forall>r \<in> set ?doomed. r \<in> set revisions \<and> \<not> ?live (rev_name r)"
  proof
    fix r assume "r \<in> set ?doomed"
    then have "r \<in> set ?h" by (rule in_set_takeD)
    then show "r \<in> set revisions \<and> \<not> ?live (rev_name r)" by simp
  qed
  have kept: "int (length ?kept) \<le> limit" using limit(2) by simp
  have order: "\<forall>d \<in> set ?doomed. \<forall>r \<in> set ?kept. rev_revision d \<le> rev_revision r"
    if "sorted (map rev_revision revisions)"
    using sorted_filter_prefix_le[OF that] by blast
  have small: "?T = (Returned None, calls)" if "int (length ?h) \<le> limit"
    using that limit by (simp add: truncateHistory_def Let_def)
  have run: "(fst ?T = Returned None \<and> snd ?T = calls @ map ?D ?doomed) \<or>
             (\<exists>k < length ?doomed. \<exists>err. fst ?T = Returned (Some err) \<and>
                 reply e (calls @ map ?D (take k ?doomed)) (?D (?doomed ! k)) = Some err \<and>
                 snd ?T = calls @ map ?D (take (Suc k) ?doomed))"
  proof (cases "int (length ?h) \<le> limit")
    case True
    then have "?n = 0" by simp
    with small[OF True] show ?thesis by simp
  next
    case False
    have le: "length ?h \<le> length revisions" by simp
    have nn: "nat (int (length ?h) - limit) = ?n" using limit(2) by simp
    have pad: "take (nat (int (length ?h) - limit))
                 (map Some ?h @ replicate (length revisions - length ?h) None)
                 = map Some ?doomed"
      by (simp add: nn take_map)
    have inside: "\<not> int (length revisions) < int (length ?h) - limit"
      using le limit(2) by linarith
    obtain err cs' where d: "deleteRevisions e (map Some ?doomed) calls = (err, cs')"
      by (cases "deleteRevisions e (map Some ?doomed) calls") auto
    have T: "?T = (Returned err, cs')"
      by (simp only: truncateHistory_def Let_def limit(1) option.case False inside if_False
            pad d prod.case)
    have mm: "map DeleteControllerRevision (map Some xs) = map ?D xs" for xs
      by simp
    from deleteRevisions_calls[OF d] show ?thesis
    proof
      assume "err = None \<and> cs' = calls @ map DeleteControllerRevision (map Some ?doomed)"
      then show ?thesis using T by (simp add: comp_def)
    next
      assume "\<exists>k<length (map Some ?doomed).
                err = reply e (calls @ map DeleteControllerRevision (take k (map Some ?doomed)))
                        (DeleteControllerRevision (map Some ?doomed ! k)) \<and>
                err \<noteq> None \<and>
                cs' = calls @ map DeleteControllerRevision (take (Suc k) (map Some ?doomed))"
      then obtain k where k: "k < length ?doomed"
        "err = reply e (calls @ map DeleteControllerRevision (take k (map Some ?doomed)))
                        (DeleteControllerRevision (map Some ?doomed ! k))"
        "err \<noteq> None"
        "cs' = calls @ map DeleteControllerRevision (take (Suc k) (map Some ?doomed))"
        by auto
      from k(3) obtain err' where err': "err = Some err'" by auto
      have "fst ?T = Returned (Some err')" using T err' by simp
      moreover have "reply e (calls @ map ?D (take k ?doomed)) (?D (?doomed ! k)) = Some err'"
        using k(1,2) err' by (simp add: take_map comp_def)
      moreover have "snd ?T = calls @ map ?D (take (Suc k) ?doomed)"
        using T k(4) by (simp add: take_map comp_def)
      ultimately show ?thesis using k(1) by blast
    qed
  qed
  from live doomed kept order small run show ?thesis
    unfolding Let_def by blast
qed

theorem truncateHistory_deletes_oldest_witness:
  "set_revisionHistoryLimit web_set = Some 1 \<and> (0::int) \<le> 1 \<and>
   truncateHistory web_env web_set [web_pod ''web-0'' ''web-v3''] [web_v1, web_v2, web_v3]
       web_v3 web_v3 []
     = (Returned None, [DeleteControllerRevision (Some web_v1)])"
proof -
  let ?pods = "[web_pod ''web-0'' ''web-v3'']"
  let ?rs = "[web_v1, web_v2, web_v3]"
  let ?T = "truncateHistory web_env web_set ?pods ?rs web_v3 web_v3 []"
  have limit: "set_revisionHistoryLimit web_set = Some 1" "(0::int) \<le> 1"
    by (simp_all add: web_set_def)
  have h: "filter (\<lambda>r. \<not> isLive ?pods web_v3 web_v3 (rev_name r)) ?rs = [web_v1, web_v2]"
    by (simp add: isLive_def getPodRevision_def web_pod_def web_v1_def web_v2_def web_v3_def)
  have quiet: "reply web_env cs c = None" for cs c
    by (simp add: web_env_def)
  from truncateHistory_deletes_oldest[OF limit, of ?pods web_v3 web_v3 ?rs web_env "[]"]
  have "fst ?T = Returned None \<and> snd ?T = [DeleteControllerRevision (Some web_v1)]"
    unfolding Let_def h by (simp add: quiet)
  then have "?T = (Returned None, [DeleteControllerRevision (Some web_v1)])"
    by (intro prod_eqI) simp_all
  with limit show ?thesis by simp
qed

section \<open>A failed write ends the pass\<close>

lemma inPlacePath_simps:
  "inPlacePath (UpdateStatefulPodCondition pp ready) = (\<not> ready)"
  "inPlacePath (InPlaceUpdateStatefulPod pp spec)"
  "\<not> inPlacePath (CreateStatefulPod pp)"
  "\<not> inPlacePath (UpdateStatefulPod p)"
  "\<not> inPlacePath (DeleteStatefulPod pp)"
  "\<not> inPlacePath (CreateControllerRevision r k)"
  "\<not> inPlacePath (UpdateControllerRevision r k)"
  "\<not> inPlacePath (DeleteControllerRevision ro)"
  "\<not> inPlacePath (UpdateStatefulSetStatus st)"
  by (simp_all add: inPlacePath_def)

lemma quiet_Nil: "quiet e []"
  by (simp add: quiet_def)

lemma quiet_snoc:
  "quiet e (cs @ [c]) = (quiet e cs \<and> (reply e cs c = None \<or> inPlacePath c))"
  by (auto simp: quiet_def list_all_iff nth_append)

lemma quiet_snoc2:
  "quiet e (cs @ [a, c]) =
     (quiet e cs \<and> (reply e cs a = None \<or> inPlacePath a) \<and>
      (reply e (cs @ [a]) c = None \<or> inPlacePath c))"
  using quiet_snoc[of e "cs @ [a]" c] by (simp add: quiet_snoc)

lemma quiet_nth:
  assumes "quiet e cs" and "i < length cs" and "reply e (take i cs) (cs ! i) = Some err"
  shows "inPlacePath (cs ! i)"
proof -
  from assms(1)
  have "\<forall>i \<in> set [0..<length cs]. reply e (take i cs) (cs ! i) = None \<or> inPlacePath (cs ! i)"
    by (simp add: quiet_def list_all_iff)
  moreover have "i \<in> set [0..<length cs]" using assms(2) by simp
  ultimately have "reply e (take i cs) (cs ! i) = None \<or> inPlacePath (cs ! i)" by blast
  with assms(3) show ?thesis by simp
qed

lemma failing_snoc: "failing e (cs @ [c]) err = (quiet e cs \<and> reply e cs c = Some err)"
  by (simp add: failing_def)

lemma failing_nth:
  assumes "failing e cs err" and "i < length cs" and "reply e (take i cs) (cs ! i) = Some x"
  shows "inPlacePath (cs ! i) \<or> (Suc i = length cs \<and> x = err)"
proof -
  from assms(1) have ne: "cs \<noteq> []" and q: "quiet e (butlast cs)"
    and r: "reply e (butlast cs) (last cs) = Some err"
    by (simp_all add: failing_def)
  show ?thesis
  proof (cases "Suc i = length cs")
    case True
    then have i: "i = length cs - 1" by simp
    have "take i cs = butlast cs" "cs ! i = last cs"
      unfolding i using ne by (simp_all add: butlast_conv_take last_conv_nth)
    with assms(3) r True show ?thesis by simp
  next
    case False
    with assms(2) have i: "i < length (butlast cs)" by simp
    then have "take i (butlast cs) = take i cs" "butlast cs ! i = cs ! i"
      by (simp_all add: take_butlast nth_butlast)
    with quiet_nth[OF q i, of x] assms(3) show ?thesis by simp
  qed
qed

lemma abortsOnError_simps:
  "abortsOnError e (Continue s) = quiet e (p_calls s)"
  "abortsOnError e (Panic s p) = quiet e (p_calls s)"
  "abortsOnError e (Return s None) = quiet e (p_calls s)"
  "abortsOnError e (Return s (Some err)) = failing e (p_calls s) err"
  by (simp_all add: abortsOnError_def)

lemma failing_snoc2:
  "failing e (cs @ [a, c]) err =
     (quiet e cs \<and> (reply e cs a = None \<or> inPlacePath a) \<and> reply e (cs @ [a]) c = Some err)"
  using failing_snoc[of e "cs @ [a]" c err] by (simp add: quiet_snoc)

lemmas abort_simps =
  abortsOnError_simps quiet_snoc quiet_snoc2 failing_snoc failing_snoc2 inPlacePath_simps

lemma recreateFailed_aborts:
  "quiet e (p_calls s) \<Longrightarrow>
   abortsOnError e (recreateFailed u e currentSet updateSet cur upd i s)"
  by (simp add: recreateFailed_def Let_def invoke_def abort_simps split: option.split)

lemma forwardBody_aborts:
  assumes "quiet e (p_calls s)"
  shows "abortsOnError e (forwardBody u e sset currentSet updateSet cur upd monotonic i s)"
proof (cases "recreateFailed u e currentSet updateSet cur upd i s")
  case (Continue s1)
  with recreateFailed_aborts[OF assms, of u currentSet updateSet cur upd i]
  have "quiet e (p_calls s1)" by (simp add: abort_simps)
  then show ?thesis
    using Continue
    by (simp add: forwardBody_def Let_def invoke_def abort_simps split: option.split)
next
  case (Return s1 err)
  then show ?thesis
    using recreateFailed_aborts[OF assms, of u currentSet updateSet cur upd i]
    by (simp add: forwardBody_def)
next
  case (Panic s1 p)
  then show ?thesis
    using recreateFailed_aborts[OF assms, of u currentSet updateSet cur upd i]
    by (simp add: forwardBody_def)
qed

lemma condemnedBody_aborts:
  "quiet e (p_calls s) \<Longrightarrow>
   abortsOnError e (condemnedBody e condemned firstUnhealthyPod cur upd monotonic target s)"
  by (simp add: condemnedBody_def Let_def invoke_def abort_simps split: option.split)

lemma deleteForUpdate_aborts:
  "quiet e cs \<Longrightarrow> abortsOnError e (deleteForUpdate e cur rp cs s)"
  by (simp add: deleteForUpdate_def abort_simps split: option.split)

lemma updatePod_aborts:
  assumes "quiet e (p_calls s)"
  shows "abortsOnError e (updatePod u e sset cur updateRevision revisions rp s)"
proof -
  let ?d = "shouldDoInPlaceUpdate u sset updateRevision (getPodRevision (snd rp)) revisions"
  show ?thesis
  proof (cases "fst ?d")
    case False
    then show ?thesis
      using assms by (simp add: updatePod_recreate deleteForUpdate_aborts)
  next
    case inpl: True
    show ?thesis
    proof (cases "checkInPlaceUpdateCompleted u (snd rp)")
      case (Some err)
      with inpl show ?thesis using assms by (simp add: updatePod_skip abort_simps)
    next
      case None
      obtain updateErr cs where att: "inPlaceUpdatePod e rp (snd ?d) (p_calls s) = (updateErr, cs)"
        by (cases "inPlaceUpdatePod e rp (snd ?d) (p_calls s)")
      from inPlaceUpdatePod_calls[OF att] assms have "quiet e cs"
        by (auto simp: abort_simps)
      then show ?thesis
        by (simp add: updatePod_inPlace[OF inpl None att] deleteForUpdate_aborts abort_simps)
    qed
  qed
qed

lemma updateBody_aborts:
  assumes "quiet e (p_calls s)"
  shows "abortsOnError e
           (updateBody u e sset cur updateRevision revisions maxUnavailable target s)"
  using assms updatePod_aborts[OF assms, of u sset cur updateRevision revisions
      "p_replicas s ! nat target"]
  by (cases "updatePod u e sset cur updateRevision revisions (p_replicas s ! nat target) s")
     (simp_all add: updateBody_def Let_def abort_simps)

lemma loop_aborts:
  fixes body :: "'i \<Rightarrow> pass \<Rightarrow> pass flow"
  assumes body: "\<And>i t. quiet e (p_calls t) \<Longrightarrow> abortsOnError e (body i t)"
    and s: "quiet e (p_calls s)"
  shows "abortsOnError e (loop body xs s)"
proof -
  have "case loop body xs s of
          Continue s' \<Rightarrow> quiet e (p_calls s')
        | Return s' r \<Rightarrow> abortsOnError e (Return s' r)
        | Panic s' p \<Rightarrow> abortsOnError e (Panic s' p)"
  proof (rule loop_rule[where I = "\<lambda>ys t. quiet e (p_calls t)"])
    show "quiet e (p_calls s)" by (rule s)
  next
    fix ys i zs and t :: pass
    assume "quiet e (p_calls t)"
    from body[OF this, of i]
    show "case body i t of
            Continue t' \<Rightarrow> quiet e (p_calls t')
          | Return t' r \<Rightarrow> abortsOnError e (Return t' r)
          | Panic t' p \<Rightarrow> abortsOnError e (Panic t' p)"
      by (cases "body i t") (simp_all add: abortsOnError_simps)
  qed
  then show ?thesis by (cases "loop body xs s") (simp_all add: abortsOnError_simps)
qed

lemma updateSweep_aborts:
  assumes "quiet e (p_calls s)"
  shows "case updateSweep u e sset cur updateRevision revisions n s of
           Return s' (Some err) \<Rightarrow>
             failing e (p_calls s') err \<or>
             (resolveStrategy sset n = Fails err \<and> p_calls s' = p_calls s)
         | f \<Rightarrow> quiet e (p_calls (flowState f))"
proof (cases "set_strategyType sset = OnDeleteStatefulSetStrategyType")
  case True
  with assms show ?thesis by (simp add: updateSweep_def flowState_def)
next
  case rolling: False
  show ?thesis
  proof (cases "resolveStrategy sset n")
    case (Succeeds r)
    obtain updateMin maxUnavailable where r: "r = (updateMin, maxUnavailable)" by (cases r)
    let ?l = "loop (updateBody u e sset cur updateRevision revisions maxUnavailable)
                (updateTargets updateMin (length (p_replicas s))) s"
    have "abortsOnError e ?l"
      using updateBody_aborts assms by (rule loop_aborts)
    then show ?thesis
      using rolling Succeeds r
      by (cases ?l)
         (auto simp: updateSweep_def abortsOnError_def flowState_def split: option.splits)
  next
    case (Fails x)
    with rolling assms show ?thesis by (simp add: updateSweep_def)
  next
    case (Panics p)
    with rolling assms show ?thesis by (simp add: updateSweep_def flowState_def)
  qed
qed

lemma sweeps_aborts:
  assumes "quiet e (p_calls s)"
  shows "quiet e (p_calls (flowState
           (sweeps u e sset currentSet updateSet currentRevision updateRevision revisions n
              condemned firstUnhealthyPod s))) \<or>
         (\<exists>s' err. sweeps u e sset currentSet updateSet currentRevision updateRevision
                      revisions n condemned firstUnhealthyPod s = Return s' (Some err) \<and>
                    failing e (p_calls s') err)"
proof -
  let ?cur = "rev_name currentRevision" and ?upd = "rev_name updateRevision"
  let ?fb = "forwardBody u e sset currentSet updateSet ?cur ?upd (\<not> allowsBurst sset)"
  let ?cb = "condemnedBody e condemned firstUnhealthyPod ?cur ?upd (\<not> allowsBurst sset)"
  let ?l1 = "loop ?fb [0..<length (p_replicas s)] s"
  have a1: "abortsOnError e ?l1"
    using forwardBody_aborts assms by (rule loop_aborts)
  show ?thesis
  proof (cases ?l1)
    case (Continue s1)
    with a1 have q1: "quiet e (p_calls s1)" by (simp add: abortsOnError_simps)
    let ?l2 = "loop ?cb (rev [0..<length condemned]) s1"
    have a2: "abortsOnError e ?l2"
      using condemnedBody_aborts q1 by (rule loop_aborts)
    show ?thesis
    proof (cases ?l2)
      case c2: (Continue s2)
      with a2 have q2: "quiet e (p_calls s2)" by (simp add: abortsOnError_simps)
      let ?us = "updateSweep u e sset ?cur updateRevision revisions n s2"
      have sw: "sweeps u e sset currentSet updateSet currentRevision updateRevision revisions n
                  condemned firstUnhealthyPod s = ?us"
        using Continue c2 by (simp add: sweeps_def Let_def)
      from updateSweep_aborts[OF q2, where u = u and sset = sset and cur = ?cur
          and updateRevision = updateRevision and revisions = revisions and n = n] q2
      have "quiet e (p_calls (flowState ?us)) \<or>
            (\<exists>s' err. ?us = Return s' (Some err) \<and> failing e (p_calls s') err)"
        by (cases ?us) (auto simp: flowState_def split: option.splits)
      with sw show ?thesis by simp
    next
      case r2: (Return s2 r)
      with a2 Continue show ?thesis
        by (cases r) (simp_all add: sweeps_def Let_def abortsOnError_simps flowState_def)
    next
      case p2: (Panic s2 p)
      with a2 Continue show ?thesis
        by (simp add: sweeps_def Let_def abortsOnError_simps flowState_def)
    qed
  next
    case (Return s1 r)
    with a1 show ?thesis
      by (cases r) (simp_all add: sweeps_def Let_def abortsOnError_simps flowState_def)
  next
    case (Panic s1 p)
    with a1 show ?thesis by (simp add: sweeps_def Let_def abortsOnError_simps flowState_def)
  qed
qed

lemma updateStatefulSet_aborts:
  assumes "quiet e calls"
  shows "quiet e (snd (updateStatefulSet u e sset currentRevision updateRevision cc pods
                         revisions calls)) \<or>
         (\<exists>st err. fst (updateStatefulSet u e sset currentRevision updateRevision cc pods
                          revisions calls) = Returned (st, Some err) \<and>
                    failing e (snd (updateStatefulSet u e sset currentRevision updateRevision
                                      cc pods revisions calls)) err)"
proof (cases "ApplyRevision u sset currentRevision")
  case (Inl x)
  with assms show ?thesis by (simp add: updateStatefulSet_def)
next
  case cs: (Inr currentSet)
  show ?thesis
  proof (cases "ApplyRevision u sset updateRevision")
    case (Inl x)
    with assms cs show ?thesis by (simp add: updateStatefulSet_def)
  next
    case us: (Inr updateSet)
    show ?thesis
    proof (cases "set_replicas sset")
      case None
      with assms cs us show ?thesis by (simp add: updateStatefulSet_def)
    next
      case (Some n)
      let ?pt = "partitionPods (rev_name currentRevision) (rev_name updateRevision) n
                   (snapshot pods)
                   \<lparr>pt_status = seedStatus sset currentRevision updateRevision cc,
                    pt_replicas = replicate (nat n) None, pt_condemned = []\<rparr>"
      let ?rs = "fillReplicas u currentSet updateSet (rev_name currentRevision)
                   (rev_name updateRevision) (pt_replicas ?pt)"
      let ?cd = "sortCondemned (pt_condemned ?pt)"
      let ?s0 = "\<lparr>p_status = pt_status ?pt, p_replicas = ?rs, p_calls = calls,
                  p_unavailable = []\<rparr>"
      let ?sw = "sweeps u e sset currentSet updateSet currentRevision updateRevision revisions
                   n ?cd (us_firstPod (findFirstUnhealthy ?rs ?cd)) ?s0"
      have "quiet e (p_calls ?s0)" using assms by simp
      from sweeps_aborts[OF this, where u = u and sset = sset and currentSet = currentSet
          and updateSet = updateSet and currentRevision = currentRevision
          and updateRevision = updateRevision and revisions = revisions and n = n
          and condemned = ?cd and firstUnhealthyPod = "us_firstPod (findFirstUnhealthy ?rs ?cd)"]
      have sw: "quiet e (p_calls (flowState ?sw)) \<or>
                (\<exists>s' err. ?sw = Return s' (Some err) \<and> failing e (p_calls s') err)" .
      show ?thesis
        using assms cs us Some sw
        by (cases ?sw) (auto simp: updateStatefulSet_def Let_def flowState_def)
    qed
  qed
qed

lemma getStatefulSetRevisions_aborts:
  assumes "quiet e calls"
  shows "quiet e (snd (getStatefulSetRevisions u e sset revisions calls)) \<or>
         (\<exists>err. fst (getStatefulSetRevisions u e sset revisions calls) = Inl err \<and>
                failing e (snd (getStatefulSetRevisions u e sset revisions calls)) err)"
  using assms
  by (simp add: getStatefulSetRevisions_def Let_def invoke_def abort_simps
        split: sum.split option.split prod.split)

lemma updateStatefulSetStatus_aborts:
  assumes "quiet e calls"
  shows "(fst (updateStatefulSetStatus u e sset st calls) = None \<and>
          quiet e (snd (updateStatefulSetStatus u e sset st calls))) \<or>
         (\<exists>err. fst (updateStatefulSetStatus u e sset st calls) = Some err \<and>
                failing e (snd (updateStatefulSetStatus u e sset st calls)) err)"
  using assms
  by (cases "reply e calls (UpdateStatefulSetStatus (completeRollingUpdate u sset st))")
     (simp_all add: updateStatefulSetStatus_def Let_def invoke_def abort_simps)

lemma deleteRevisions_aborts:
  "quiet e cs \<Longrightarrow>
   (fst (deleteRevisions e rs cs) = None \<and> quiet e (snd (deleteRevisions e rs cs))) \<or>
   (\<exists>err. fst (deleteRevisions e rs cs) = Some err \<and>
          failing e (snd (deleteRevisions e rs cs)) err)"
proof (induction rs arbitrary: cs)
  case Nil
  then show ?case by simp
next
  case (Cons r rs)
  show ?case
  proof (cases "reply e cs (DeleteControllerRevision r)")
    case None
    with Cons.prems have "quiet e (cs @ [DeleteControllerRevision r])"
      by (simp add: abort_simps)
    from Cons.IH[OF this] None show ?thesis by (simp add: invoke_def)
  next
    case (Some err)
    with Cons.prems show ?thesis by (simp add: invoke_def abort_simps)
  qed
qed

lemma truncateHistory_aborts:
  assumes "quiet e calls"
  shows "quiet e (snd (truncateHistory e sset pods revisions current update calls)) \<or>
         (\<exists>err. fst (truncateHistory e sset pods revisions current update calls)
                  = Returned (Some err) \<and>
                failing e (snd (truncateHistory e sset pods revisions current update calls))
                  err)"
proof -
  let ?history = "filter (\<lambda>r. \<not> isLive pods current update (rev_name r)) revisions"
  show ?thesis
  proof (cases "set_revisionHistoryLimit sset")
    case None
    with assms show ?thesis by (simp add: truncateHistory_def)
  next
    case (Some limit)
    let ?rs = "take (nat (int (length ?history) - limit))
                 (map Some ?history @ replicate (length revisions - length ?history) None)"
    from deleteRevisions_aborts[OF assms, where rs = ?rs]
    show ?thesis
      using assms Some
      by (cases "deleteRevisions e ?rs calls")
         (auto simp: truncateHistory_def Let_def)
  qed
qed

lemma UpdateStatefulSet_aborts:
  "quiet e (snd (UpdateStatefulSet u e sset pods)) \<or>
   (\<exists>err. fst (UpdateStatefulSet u e sset pods) = Returned (Some err) \<and>
          failing e (snd (UpdateStatefulSet u e sset pods)) err)"
proof (cases "listed e")
  case (Inl x)
  then show ?thesis by (simp add: UpdateStatefulSet_def quiet_Nil)
next
  case (Inr revisions0)
  let ?revisions = "SortControllerRevisions revisions0"
  let ?g = "getStatefulSetRevisions u e sset ?revisions []"
  note g = getStatefulSetRevisions_aborts[OF quiet_Nil, where u = u and sset = sset
      and revisions = ?revisions and e = e]
  show ?thesis
  proof (cases "fst ?g")
    case (Inl x)
    then have "UpdateStatefulSet u e sset pods = (Returned (Some x), snd ?g)"
      using Inr by (cases ?g) (simp add: UpdateStatefulSet_def Let_def)
    with g Inl show ?thesis by auto
  next
    case found: (Inr triple)
    obtain currentRevision updateRevision cc
      where triple: "triple = (currentRevision, updateRevision, cc)"
      by (cases triple)
    from g found have q: "quiet e (snd ?g)" by simp
    let ?m = "updateStatefulSet u e sset currentRevision updateRevision cc pods ?revisions
                (snd ?g)"
    note m = updateStatefulSet_aborts[OF q, where u = u and sset = sset
        and currentRevision = currentRevision and updateRevision = updateRevision
        and cc = cc and pods = pods and revisions = ?revisions]
    have unfold: "UpdateStatefulSet u e sset pods =
        (case ?m of
           (Panicked p, cs1) \<Rightarrow> (Panicked p, cs1)
         | (Returned (st, Some err), cs1) \<Rightarrow> (Returned (Some err), cs1)
         | (Returned (None, None), cs1) \<Rightarrow> (Panicked NilDereference, cs1)
         | (Returned (Some st, None), cs1) \<Rightarrow>
             (case updateStatefulSetStatus u e sset st cs1 of
                (Some err, cs2) \<Rightarrow> (Returned (Some err), cs2)
              | (None, cs2) \<Rightarrow>
                  truncateHistory e sset pods ?revisions currentRevision updateRevision cs2))"
      using Inr found triple by (cases ?g) (simp add: UpdateStatefulSet_def Let_def)
    obtain res cs1 where res: "?m = (res, cs1)" by (cases ?m)
    show ?thesis
    proof (cases res)
      case (Panicked p)
      with m res unfold show ?thesis by simp
    next
      case (Returned pair)
      obtain sto eo where pair: "pair = (sto, eo)" by (cases pair)
      show ?thesis
      proof (cases eo)
        case (Some err)
        with m res unfold Returned pair show ?thesis by (cases sto) auto
      next
        case None
        with m res Returned pair have q1: "quiet e cs1" by simp
        show ?thesis
        proof (cases sto)
          case no: None
          with q1 res unfold Returned pair None show ?thesis by simp
        next
          case (Some st)
          let ?w = "updateStatefulSetStatus u e sset st cs1"
          note w = updateStatefulSetStatus_aborts[OF q1, where u = u and sset = sset and st = st]
          obtain werr cs2 where wres: "?w = (werr, cs2)" by (cases ?w)
          show ?thesis
          proof (cases werr)
            case failed: (Some err)
            with w wres res unfold Returned pair None Some show ?thesis by simp
          next
            case ok: None
            with w wres have q2: "quiet e cs2" by simp
            have "UpdateStatefulSet u e sset pods =
                    truncateHistory e sset pods ?revisions currentRevision updateRevision cs2"
              using wres ok res unfold Returned pair None Some by simp
            with truncateHistory_aborts[OF q2, where sset = sset and pods = pods
                and revisions = ?revisions and current = currentRevision
                and update = updateRevision]
            show ?thesis by simp
          qed
        qed
      qed
    qed
  qed
qed


section \<open>The in-place update path\<close>

lemma web_patching_revisions:
  assumes "listed e = Inr [web_v1, web_v2]"
  shows "SortControllerRevisions [web_v1, web_v2] = [web_v1, web_v2]"
    and "getStatefulSetRevisions web_inplace e web_patching [web_v1, web_v2] []
           = (Inr (web_v1, web_v2, 0), [])"
  by (simp_all add: revision_evals web_evals web_inplace_def web_patching_def Let_def)

lemma web_patching_partition:
  "ApplyRevision web_inplace web_patching web_v1 = Inr (web_patching\<lparr>set_template := ''v1''\<rparr>)"
  "ApplyRevision web_inplace web_patching web_v2 = Inr (web_patching\<lparr>set_template := ''v2''\<rparr>)"
  "set_replicas web_patching = Some 1"
  "set_deletionTimestamp web_patching = None"
  "partitionPods (rev_name web_v1) (rev_name web_v2) 1 (snapshot [web_pod ''web-0'' ''web-v1''])
     \<lparr>pt_status = seedStatus web_patching web_v1 web_v2 0,
      pt_replicas = replicate (nat 1) None, pt_condemned = []\<rparr>
   = \<lparr>pt_status =
        \<lparr>st_observedGeneration = 2, st_replicas = 1, st_readyReplicas = 1,
         st_currentReplicas = 1, st_updatedReplicas = 0, st_currentRevision = ''web-v1'',
         st_updateRevision = ''web-v2'', st_collisionCount = Some 0\<rparr>,
      pt_replicas = [Some (Listed 0, web_pod ''web-0'' ''web-v1'')], pt_condemned = []\<rparr>"
  "fillReplicas web_inplace (web_patching\<lparr>set_template := ''v1''\<rparr>)
     (web_patching\<lparr>set_template := ''v2''\<rparr>) (rev_name web_v1) (rev_name web_v2)
     [Some (Listed 0, web_pod ''web-0'' ''web-v1'')] = [(Listed 0, web_pod ''web-0'' ''web-v1'')]"
  "sortCondemned [] = []"
  "findFirstUnhealthy [(Listed 0, web_pod ''web-0'' ''web-v1'')] []
     = \<lparr>us_unhealthy = 0, us_firstOrdinal = MaxInt32, us_firstPod = None\<rparr>"
  by (simp_all add: web_inplace_def web_patching_def web_evals snapshot_def placePod_def
        countPod_def seedStatus_def pod_evals fillReplicas_def sortCondemned_def
        findFirstUnhealthy_def scanPod_def Let_def)

lemma web_patching_pass:
  assumes sw: "sweeps web_inplace e web_patching (web_patching\<lparr>set_template := ''v1''\<rparr>)
                 (web_patching\<lparr>set_template := ''v2''\<rparr>) web_v1 web_v2 [web_v1, web_v2] 1 []
                 None
                 \<lparr>p_status =
                    \<lparr>st_observedGeneration = 2, st_replicas = 1, st_readyReplicas = 1,
                     st_currentReplicas = 1, st_updatedReplicas = 0,
                     st_currentRevision = ''web-v1'', st_updateRevision = ''web-v2'',
                     st_collisionCount = Some 0\<rparr>,
                  p_replicas = [(Listed 0, web_pod ''web-0'' ''web-v1'')], p_calls = [],
                  p_unavailable = []\<rparr> = outcome"
  shows "updateStatefulSet web_inplace e web_patching web_v1 web_v2 0
           [web_pod ''web-0'' ''web-v1''] [web_v1, web_v2] [] =
         (case outcome of
            Continue s \<Rightarrow> (Returned (Some (p_status s), None), p_calls s)
          | Return s err \<Rightarrow> (Returned (Some (p_status s), err), p_calls s)
          | Panic s p \<Rightarrow> (Panicked p, p_calls s))"
proof (rule updateStatefulSet_stages)
  show "ApplyRevision web_inplace web_patching web_v1
          = Inr (web_patching\<lparr>set_template := ''v1''\<rparr>)"
    by (rule web_patching_partition)
  show "ApplyRevision web_inplace web_patching web_v2
          = Inr (web_patching\<lparr>set_template := ''v2''\<rparr>)"
    by (rule web_patching_partition)
  show "set_replicas web_patching = Some 1" by (rule web_patching_partition)
  show "(0::int) \<le> 1" by simp
  show "partitionPods (rev_name web_v1) (rev_name web_v2) 1
          (snapshot [web_pod ''web-0'' ''web-v1''])
          \<lparr>pt_status = seedStatus web_patching web_v1 web_v2 0,
           pt_replicas = replicate (nat 1) None, pt_condemned = []\<rparr>
        = \<lparr>pt_status =
             \<lparr>st_observedGeneration = 2, st_replicas = 1, st_readyReplicas = 1,
              st_currentReplicas = 1, st_updatedReplicas = 0, st_currentRevision = ''web-v1'',
              st_updateRevision = ''web-v2'', st_collisionCount = Some 0\<rparr>,
           pt_replicas = [Some (Listed 0, web_pod ''web-0'' ''web-v1'')], pt_condemned = []\<rparr>"
    by (rule web_patching_partition)
  show "fillReplicas web_inplace (web_patching\<lparr>set_template := ''v1''\<rparr>)
          (web_patching\<lparr>set_template := ''v2''\<rparr>) (rev_name web_v1) (rev_name web_v2)
          (pt_replicas \<lparr>pt_status =
             \<lparr>st_observedGeneration = 2, st_replicas = 1, st_readyReplicas = 1,
              st_currentReplicas = 1, st_updatedReplicas = 0, st_currentRevision = ''web-v1'',
              st_updateRevision = ''web-v2'', st_collisionCount = Some 0\<rparr>,
           pt_replicas = [Some (Listed 0, web_pod ''web-0'' ''web-v1'')], pt_condemned = []\<rparr>)
        = [(Listed 0, web_pod ''web-0'' ''web-v1'')]"
    by (simp add: web_patching_partition)
  show "sortCondemned (pt_condemned \<lparr>pt_status =
             \<lparr>st_observedGeneration = 2, st_replicas = 1, st_readyReplicas = 1,
              st_currentReplicas = 1, st_updatedReplicas = 0, st_currentRevision = ''web-v1'',
              st_updateRevision = ''web-v2'', st_collisionCount = Some 0\<rparr>,
           pt_replicas = [Some (Listed 0, web_pod ''web-0'' ''web-v1'')], pt_condemned = []\<rparr>)
        = []"
    by (simp add: web_patching_partition)
  show "findFirstUnhealthy [(Listed 0, web_pod ''web-0'' ''web-v1'')] []
          = \<lparr>us_unhealthy = 0, us_firstOrdinal = MaxInt32, us_firstPod = None\<rparr>"
    by (rule web_patching_partition)
  show "\<not> (0 < us_unhealthy \<lparr>us_unhealthy = 0, us_firstOrdinal = MaxInt32, us_firstPod = None\<rparr> \<and>
            us_firstPod \<lparr>us_unhealthy = 0, us_firstOrdinal = MaxInt32, us_firstPod = None\<rparr>
              = None)"
    by simp
  show "set_deletionTimestamp web_patching = None" by (rule web_patching_partition)
  show "sweeps web_inplace e web_patching (web_patching\<lparr>set_template := ''v1''\<rparr>)
          (web_patching\<lparr>set_template := ''v2''\<rparr>) web_v1 web_v2 [web_v1, web_v2] 1 []
          (us_firstPod \<lparr>us_unhealthy = 0, us_firstOrdinal = MaxInt32, us_firstPod = None\<rparr>)
          \<lparr>p_status = pt_status \<lparr>pt_status =
             \<lparr>st_observedGeneration = 2, st_replicas = 1, st_readyReplicas = 1,
              st_currentReplicas = 1, st_updatedReplicas = 0, st_currentRevision = ''web-v1'',
              st_updateRevision = ''web-v2'', st_collisionCount = Some 0\<rparr>,
           pt_replicas = [Some (Listed 0, web_pod ''web-0'' ''web-v1'')], pt_condemned = []\<rparr>,
           p_replicas = [(Listed 0, web_pod ''web-0'' ''web-v1'')], p_calls = [],
           p_unavailable = []\<rparr> = outcome"
    using sw by simp
qed

lemmas sweep_evals =
  sweeps_def updateSweep_def updateBody_def updatePod_def inPlaceUpdatePod_def
  isUnavailable_def resolveStrategy_def GetValueFromIntOrPercent_def ValueOrDefault_def
  updateTargets_def condemnedBody_def forwardBody_def recreateFailed_def addCounted_def
  removeCounted_def invoke_def allowsBurst_def isInPlaceOnly_def Let_def


text \<open>
  Claim C8 as stated fails for the in-place update path. The set \<open>web\<close> updates its one
  pod in place where possible, and the Pod Controller rejects the condition update to
  False: the pass goes on, deletes the pod and writes the status, and
  \<^verbatim>\<open>UpdateStatefulSet\<close> returns nil.
\<close>

theorem in_place_error_counterexample:
  "reply web_conflict []
     (UpdateStatefulPodCondition (Listed 0, web_pod ''web-0'' ''web-v1'') False)
     = Some (Error ''conflict'') \<and>
   UpdateStatefulSet web_inplace web_conflict web_patching [web_pod ''web-0'' ''web-v1'']
     = (Returned None,
        [UpdateStatefulPodCondition (Listed 0, web_pod ''web-0'' ''web-v1'') False,
         DeleteStatefulPod (Listed 0, web_pod ''web-0'' ''web-v1''),
         UpdateStatefulSetStatus
           \<lparr>st_observedGeneration = 2, st_replicas = 1, st_readyReplicas = 1,
            st_currentReplicas = 0, st_updatedReplicas = 0, st_currentRevision = ''web-v1'',
            st_updateRevision = ''web-v2'', st_collisionCount = Some 0\<rparr>])"
proof -
  let ?pod = "(Listed 0, web_pod ''web-0'' ''web-v1'')"
  let ?st = "\<lparr>st_observedGeneration = 2, st_replicas = 1, st_readyReplicas = 1,
              st_currentReplicas = 0, st_updatedReplicas = 0, st_currentRevision = ''web-v1'',
              st_updateRevision = ''web-v2'', st_collisionCount = Some 0\<rparr>"
  let ?cs = "[UpdateStatefulPodCondition ?pod False, DeleteStatefulPod ?pod]"
  have l: "listed web_conflict = Inr [web_v1, web_v2]"
    by (simp add: web_conflict_def web_env_def)
  have r: "reply web_conflict [] (UpdateStatefulPodCondition ?pod False)
             = Some (Error ''conflict'')"
    by (simp add: web_conflict_def inPlacePath_def)
  have sw: "sweeps web_inplace web_conflict web_patching (web_patching\<lparr>set_template := ''v1''\<rparr>)
              (web_patching\<lparr>set_template := ''v2''\<rparr>) web_v1 web_v2 [web_v1, web_v2] 1 []
              None
              \<lparr>p_status =
                 \<lparr>st_observedGeneration = 2, st_replicas = 1, st_readyReplicas = 1,
                  st_currentReplicas = 1, st_updatedReplicas = 0,
                  st_currentRevision = ''web-v1'', st_updateRevision = ''web-v2'',
                  st_collisionCount = Some 0\<rparr>,
               p_replicas = [?pod], p_calls = [], p_unavailable = []\<rparr>
            = Return \<lparr>p_status = ?st, p_replicas = [?pod], p_calls = ?cs,
                      p_unavailable = [''web-0'']\<rparr> None"
    by (simp add: sweep_evals pod_evals web_evals web_inplace_def web_patching_def
          web_conflict_def inPlacePath_def)
  have m: "updateStatefulSet web_inplace web_conflict web_patching web_v1 web_v2 0
             [web_pod ''web-0'' ''web-v1''] [web_v1, web_v2] []
           = (Returned (Some ?st, None), ?cs)"
    by (simp add: web_patching_pass[OF sw])
  have w: "updateStatefulSetStatus web_inplace web_conflict web_patching ?st ?cs
             = (None, ?cs @ [UpdateStatefulSetStatus ?st])"
    by (simp add: updateStatefulSetStatus_def invoke_def web_inplace_def web_patching_def
          web_conflict_def web_evals inPlacePath_def)
  have t: "truncateHistory web_conflict web_patching [web_pod ''web-0'' ''web-v1'']
             [web_v1, web_v2] web_v1 web_v2 cs = (Returned None, cs)" for cs
    by (simp add: truncateHistory_def isLive_def web_patching_def web_evals)
  have "UpdateStatefulSet web_inplace web_conflict web_patching [web_pod ''web-0'' ''web-v1'']
          = (Returned None, ?cs @ [UpdateStatefulSetStatus ?st])"
    by (simp add: UpdateStatefulSet_stages[OF l web_patching_revisions[OF l] m] w t)
  with r show ?thesis by simp
qed

text \<open>
  Claim C8, as amended. Every write of a pass that is answered with an error, the
  calls of \<^verbatim>\<open>inPlaceUpdatePod\<close> apart, is the last call of the pass, and
  \<^verbatim>\<open>UpdateStatefulSet\<close> returns that error. An error of \<^verbatim>\<open>inPlaceUpdatePod\<close> (of
  the condition update to False or of the patch) is not returned: when the pod update
  policy is not \<^verbatim>\<open>InPlaceOnly\<close>, the pod is deleted instead and only an error of the
  delete is returned; when it is \<^verbatim>\<open>InPlaceOnly\<close>, the sweep goes on.
\<close>

theorem failed_write_ends_pass:
  "(\<forall>i x. i < length (snd (UpdateStatefulSet u e sset pods)) \<and>
          reply e (take i (snd (UpdateStatefulSet u e sset pods)))
            (snd (UpdateStatefulSet u e sset pods) ! i) = Some x
      \<longrightarrow> inPlacePath (snd (UpdateStatefulSet u e sset pods) ! i) \<or>
          (Suc i = length (snd (UpdateStatefulSet u e sset pods)) \<and>
           fst (UpdateStatefulSet u e sset pods) = Returned (Some x))) \<and>
   (\<forall>updateErr cs.
      fst (shouldDoInPlaceUpdate u sset updateRevision (getPodRevision (snd rp)) revisions) \<and>
      checkInPlaceUpdateCompleted u (snd rp) = None \<and>
      inPlaceUpdatePod e rp
        (snd (shouldDoInPlaceUpdate u sset updateRevision (getPodRevision (snd rp)) revisions))
        (p_calls s) = (Some updateErr, cs)
      \<longrightarrow> updatePod u e sset cur updateRevision revisions rp s =
            (if isInPlaceOnly sset
             then Continue (s\<lparr>p_calls := cs,
                             p_status := (if getPodRevision (snd rp) = cur
                                          then (p_status s)\<lparr>st_currentReplicas :=
                                                  st_currentReplicas (p_status s) - 1\<rparr>
                                          else p_status s)\<rparr>)
             else (case reply e cs (DeleteStatefulPod rp) of
                     Some err \<Rightarrow> Return (s\<lparr>p_calls := cs @ [DeleteStatefulPod rp]\<rparr>) (Some err)
                   | None \<Rightarrow>
                       Continue (s\<lparr>p_calls := cs @ [DeleteStatefulPod rp],
                                   p_status := (if getPodRevision (snd rp) = cur
                                                then (p_status s)\<lparr>st_currentReplicas :=
                                                        st_currentReplicas (p_status s) - 1\<rparr>
                                                else p_status s)\<rparr>))))"
proof -
  let ?R = "UpdateStatefulSet u e sset pods"
  have a: "inPlacePath (snd ?R ! i) \<or> (Suc i = length (snd ?R) \<and> fst ?R = Returned (Some x))"
    if i: "i < length (snd ?R)" and x: "reply e (take i (snd ?R)) (snd ?R ! i) = Some x" for i x
  proof -
    from UpdateStatefulSet_aborts[of e u sset pods]
    consider "quiet e (snd ?R)"
      | err where "fst ?R = Returned (Some err)" "failing e (snd ?R) err"
      by blast
    then show ?thesis
    proof cases
      case 1
      from quiet_nth[OF 1 i x] show ?thesis ..
    next
      case 2
      from failing_nth[OF 2(2) i x] 2(1) show ?thesis by auto
    qed
  qed
  have b: "updatePod u e sset cur updateRevision revisions rp s =
            (if isInPlaceOnly sset
             then Continue (s\<lparr>p_calls := cs,
                             p_status := (if getPodRevision (snd rp) = cur
                                          then (p_status s)\<lparr>st_currentReplicas :=
                                                  st_currentReplicas (p_status s) - 1\<rparr>
                                          else p_status s)\<rparr>)
             else (case reply e cs (DeleteStatefulPod rp) of
                     Some err \<Rightarrow> Return (s\<lparr>p_calls := cs @ [DeleteStatefulPod rp]\<rparr>) (Some err)
                   | None \<Rightarrow>
                       Continue (s\<lparr>p_calls := cs @ [DeleteStatefulPod rp],
                                   p_status := (if getPodRevision (snd rp) = cur
                                                then (p_status s)\<lparr>st_currentReplicas :=
                                                        st_currentReplicas (p_status s) - 1\<rparr>
                                                else p_status s)\<rparr>)))"
    if "fst (shouldDoInPlaceUpdate u sset updateRevision (getPodRevision (snd rp)) revisions)"
      and "checkInPlaceUpdateCompleted u (snd rp) = None"
      and "inPlaceUpdatePod e rp
             (snd (shouldDoInPlaceUpdate u sset updateRevision (getPodRevision (snd rp))
                     revisions)) (p_calls s) = (Some updateErr, cs)"
    for updateErr cs
    by (simp add: updatePod_inPlace[OF that] deleteForUpdate_def)
  from a b show ?thesis by blast
qed

theorem failed_write_ends_pass_witness:
  "snd (UpdateStatefulSet web_inplace web_down web_patching [web_pod ''web-0'' ''web-v1''])
     = [UpdateStatefulPodCondition (Listed 0, web_pod ''web-0'' ''web-v1'') False,
        DeleteStatefulPod (Listed 0, web_pod ''web-0'' ''web-v1'')] \<and>
   reply web_down [UpdateStatefulPodCondition (Listed 0, web_pod ''web-0'' ''web-v1'') False]
     (DeleteStatefulPod (Listed 0, web_pod ''web-0'' ''web-v1'')) = Some (Error ''rejected'') \<and>
   fst (UpdateStatefulSet web_inplace web_down web_patching [web_pod ''web-0'' ''web-v1''])
     = Returned (Some (Error ''rejected'')) \<and>
   updatePod web_inplace web_down web_patching ''web-v1'' web_v2 [web_v1, web_v2]
       (Listed 0, web_pod ''web-0'' ''web-v1'')
       \<lparr>p_status = set_status web_patching,
        p_replicas = [(Listed 0, web_pod ''web-0'' ''web-v1'')], p_calls = [],
        p_unavailable = []\<rparr>
     = Return \<lparr>p_status = set_status web_patching,
               p_replicas = [(Listed 0, web_pod ''web-0'' ''web-v1'')],
               p_calls = [UpdateStatefulPodCondition (Listed 0, web_pod ''web-0'' ''web-v1'')
                            False,
                          DeleteStatefulPod (Listed 0, web_pod ''web-0'' ''web-v1'')],
               p_unavailable = []\<rparr> (Some (Error ''rejected''))"
proof -
  let ?pod = "(Listed 0, web_pod ''web-0'' ''web-v1'')"
  let ?cs = "[UpdateStatefulPodCondition ?pod False, DeleteStatefulPod ?pod]"
  let ?st = "\<lparr>st_observedGeneration = 2, st_replicas = 1, st_readyReplicas = 1,
              st_currentReplicas = 1, st_updatedReplicas = 0, st_currentRevision = ''web-v1'',
              st_updateRevision = ''web-v2'', st_collisionCount = Some 0\<rparr>"
  let ?s = "\<lparr>p_status = set_status web_patching, p_replicas = [?pod], p_calls = [],
             p_unavailable = []\<rparr>"
  let ?R = "UpdateStatefulSet web_inplace web_down web_patching [web_pod ''web-0'' ''web-v1'']"
  let ?d = "shouldDoInPlaceUpdate web_inplace web_patching web_v2 (getPodRevision (snd ?pod))
              [web_v1, web_v2]"
  note T = failed_write_ends_pass[where u = web_inplace and e = web_down
      and sset = web_patching and pods = "[web_pod ''web-0'' ''web-v1'']"
      and updateRevision = web_v2 and rp = ?pod and revisions = "[web_v1, web_v2]"
      and s = ?s and cur = "''web-v1''"]
  note T1 = T[THEN conjunct1, rule_format, of 1 "Error ''rejected''"]
  note T2 = T[THEN conjunct2, rule_format, of "Error ''rejected''"
      "[UpdateStatefulPodCondition ?pod False]"]
  have l: "listed web_down = Inr [web_v1, web_v2]"
    by (simp add: web_down_def web_env_def)
  have rej: "reply web_down cs c = Some (Error ''rejected'')" for cs c
    by (simp add: web_down_def)
  have sw: "sweeps web_inplace web_down web_patching (web_patching\<lparr>set_template := ''v1''\<rparr>)
              (web_patching\<lparr>set_template := ''v2''\<rparr>) web_v1 web_v2 [web_v1, web_v2] 1 []
              None
              \<lparr>p_status = ?st, p_replicas = [?pod], p_calls = [], p_unavailable = []\<rparr>
            = Return \<lparr>p_status = ?st, p_replicas = [?pod], p_calls = ?cs,
                      p_unavailable = []\<rparr> (Some (Error ''rejected''))"
    by (simp add: sweep_evals pod_evals web_evals web_inplace_def web_patching_def
          web_down_def)
  have m: "updateStatefulSet web_inplace web_down web_patching web_v1 web_v2 0
             [web_pod ''web-0'' ''web-v1''] [web_v1, web_v2] []
           = (Returned (Some ?st, Some (Error ''rejected'')), ?cs)"
    by (simp add: web_patching_pass[OF sw])
  have R: "?R = (Returned (Some (Error ''rejected'')), ?cs)"
    by (simp add: UpdateStatefulSet_stages[OF l web_patching_revisions[OF l] m])
  then have calls: "snd ?R = ?cs" by simp
  have "1 < length (snd ?R) \<and> reply web_down (take 1 (snd ?R)) (snd ?R ! 1)
          = Some (Error ''rejected'')"
    unfolding calls by (simp add: rej)
  from T1[OF this] have "fst ?R = Returned (Some (Error ''rejected''))"
    unfolding calls by (simp add: inPlacePath_simps)
  moreover
  have "fst ?d \<and> checkInPlaceUpdateCompleted web_inplace (snd ?pod) = None \<and>
        inPlaceUpdatePod web_down ?pod (snd ?d) (p_calls ?s)
          = (Some (Error ''rejected''), [UpdateStatefulPodCondition ?pod False])"
    by (simp add: web_inplace_def web_utils_def inPlaceUpdatePod_def invoke_def rej)
  from T2[OF this]
  have "updatePod web_inplace web_down web_patching ''web-v1'' web_v2 [web_v1, web_v2] ?pod ?s
          = Return (?s\<lparr>p_calls := ?cs\<rparr>) (Some (Error ''rejected''))"
    by (simp add: rej isInPlaceOnly_def web_patching_def)
  ultimately show ?thesis using calls rej by simp
qed

section \<open>A set that is being deleted\<close>

text \<open>
  Claim C9. If \<^verbatim>\<open>set.DeletionTimestamp\<close> is not nil, \<^verbatim>\<open>updateStatefulSet\<close> issues no
  call to a collaborator, whatever else happens; a status it returns is the status of the
  snapshot (observed generation, the names of the current and the update revision, the
  collision count and the four counters) with a nil error; and it does return that
  status when both revisions can be applied, \<^verbatim>\<open>Replicas\<close> points to a number that is
  not negative and no pod of the snapshot or rendered for an empty slot has an ordinal
  of \<^verbatim>\<open>math.MaxInt32\<close> or more.
\<close>

theorem deleted_set_is_only_observed:
  assumes del: "set_deletionTimestamp sset \<noteq> None"
  shows "snd (updateStatefulSet u e sset cur upd cc pods revisions calls) = calls \<and>
     (\<forall>st err.
         fst (updateStatefulSet u e sset cur upd cc pods revisions calls)
           = Returned (Some st, err)
         \<longrightarrow> st = observedStatus sset cur upd cc pods \<and> err = None) \<and>
     ((\<exists>cs us n. ApplyRevision u sset cur = Inr cs \<and> ApplyRevision u sset upd = Inr us \<and>
          set_replicas sset = Some n \<and> 0 \<le> n \<and>
          (\<forall>p \<in> set pods. getOrdinal p < MaxInt32) \<and>
          (\<forall>i < nat n. getOrdinal (newVersionedStatefulSetPod u cs us (rev_name cur)
                                     (rev_name upd) (int i)) < MaxInt32))
       \<longrightarrow> fst (updateStatefulSet u e sset cur upd cc pods revisions calls)
             = Returned (Some (observedStatus sset cur upd cc pods), None))"
proof -
  let ?R = "updateStatefulSet u e sset cur upd cc pods revisions calls"
  have st: "pt_status (partitionPods (rev_name cur) (rev_name upd) n (snapshot pods)
               \<lparr>pt_status = seedStatus sset cur upd cc, pt_replicas = rs,
                pt_condemned = []\<rparr>)
            = observedStatus sset cur upd cc pods" for n rs
    by (simp add: partitionPods_status snd_snapshot tally_seed)
  have a: "snd ?R = calls"
    using del by (simp add: updateStatefulSet_def Let_def split: sum.splits option.splits)
  have b: "\<forall>st err. fst ?R = Returned (Some st, err)
             \<longrightarrow> st = observedStatus sset cur upd cc pods \<and> err = None"
    using del by (simp add: updateStatefulSet_def Let_def st split: sum.splits option.splits)
  have c: "fst ?R = Returned (Some (observedStatus sset cur upd cc pods), None)"
    if ok: "ApplyRevision u sset cur = Inr cs" "ApplyRevision u sset upd = Inr us"
       "set_replicas sset = Some n" "0 \<le> n"
       "\<forall>p \<in> set pods. getOrdinal p < MaxInt32"
       "\<forall>i < nat n. getOrdinal (newVersionedStatefulSetPod u cs us (rev_name cur)
                                  (rev_name upd) (int i)) < MaxInt32"
    for cs us n
  proof -
    let ?pt = "partitionPods (rev_name cur) (rev_name upd) n (snapshot pods)
               \<lparr>pt_status = seedStatus sset cur upd cc,
                pt_replicas = replicate (nat n) None, pt_condemned = []\<rparr>"
    let ?rs = "fillReplicas u cs us (rev_name cur) (rev_name upd) (pt_replicas ?pt)"
    let ?cd = "sortCondemned (pt_condemned ?pt)"
    have "getOrdinal (snd pp) < MaxInt32" if "pp \<in> set ?rs \<union> set ?cd" for pp
    proof -
      from that consider "pp \<in> set ?rs" | "pp \<in> set (pt_condemned ?pt)"
        by (auto simp: sortCondemned_set)
      then show ?thesis
      proof cases
        case 1
        from fillReplicas_elems[OF 1] show ?thesis
        proof
          assume "Some pp \<in> set (pt_replicas ?pt)"
          from partitionPods_slots[OF this] have "pp \<in> set (snapshot pods)" by simp
          then show ?thesis using ok(5) snapshot_elems by blast
        next
          assume "\<exists>i < length (pt_replicas ?pt).
                    pp = (Rendered i, newVersionedStatefulSetPod u cs us (rev_name cur)
                                        (rev_name upd) (int i))"
          then show ?thesis using ok(6) by (auto simp: partitionPods_length)
        qed
      next
        case 2
        then have "pp \<in> set (snapshot pods)" using ok(4) by (simp add: partitionPods_condemned)
        then show ?thesis using ok(5) snapshot_elems by blast
      qed
    qed
    then have "scanOk (findFirstUnhealthy ?rs ?cd)" by (intro findFirstUnhealthy_ok) blast
    from scanOk_no_panic[OF this] show ?thesis
      using del ok(1-4) by (simp add: updateStatefulSet_def Let_def st)
  qed
  from a b c show ?thesis by blast
qed

theorem deleted_set_is_only_observed_witness:
  "set_deletionTimestamp (web_set\<lparr>set_deletionTimestamp := Some 7\<rparr>) \<noteq> None \<and>
   updateStatefulSet web_utils web_env (web_set\<lparr>set_deletionTimestamp := Some 7\<rparr>)
       web_v1 web_v2 0 [web_pod ''web-0'' ''web-v1'', web_pod ''web-2'' ''web-v2''] [web_v1, web_v2] []
     = (Returned (Some (observedStatus (web_set\<lparr>set_deletionTimestamp := Some 7\<rparr>)
                          web_v1 web_v2 0
                          [web_pod ''web-0'' ''web-v1'', web_pod ''web-2'' ''web-v2'']), None),
        [])"
proof -
  let ?s = "web_set\<lparr>set_deletionTimestamp := Some 7\<rparr>"
  let ?pods = "[web_pod ''web-0'' ''web-v1'', web_pod ''web-2'' ''web-v2'']"
  have del: "set_deletionTimestamp ?s \<noteq> None" by simp
  have ords: "\<forall>p \<in> set ?pods. getOrdinal p < MaxInt32"
    by (simp add: getOrdinal_def trailingNumber_def web_pod_def digitOf_def MaxInt32_def)
  have rendered: "\<forall>i < nat 3. getOrdinal (newVersionedStatefulSetPod web_utils
            (?s\<lparr>set_template := rev_data web_v1\<rparr>) (?s\<lparr>set_template := rev_data web_v2\<rparr>)
            (rev_name web_v1) (rev_name web_v2) (int i)) < MaxInt32"
    by (auto dest!: less_3_cases
        simp: web_utils_def web_render_def web_set_def getOrdinal_def trailingNumber_def
              digitOf_def digitChar_def decimal_digit MaxInt32_def
              newVersionedStatefulSetPod_def)
  have pre: "\<exists>cs us n. ApplyRevision web_utils ?s web_v1 = Inr cs \<and>
          ApplyRevision web_utils ?s web_v2 = Inr us \<and>
          set_replicas ?s = Some n \<and> 0 \<le> n \<and>
          (\<forall>p \<in> set ?pods. getOrdinal p < MaxInt32) \<and>
          (\<forall>i < nat n. getOrdinal (newVersionedStatefulSetPod web_utils cs us (rev_name web_v1)
                                     (rev_name web_v2) (int i)) < MaxInt32)"
    using ords rendered by (simp add: web_utils_def web_set_def)
  let ?R = "updateStatefulSet web_utils web_env ?s web_v1 web_v2 0 ?pods [web_v1, web_v2] []"
  note T = deleted_set_is_only_observed[OF del, of web_utils web_env web_v1 web_v2 0 ?pods
      "[web_v1, web_v2]" "[]"]
  from T have a: "snd ?R = []" by (rule conjunct1)
  from T[THEN conjunct2, THEN conjunct2] pre
  have f: "fst ?R = Returned (Some (observedStatus ?s web_v1 web_v2 0 ?pods), None)"
    by (rule mp)
  have "?R = (Returned (Some (observedStatus ?s web_v1 web_v2 0 ?pods), None), [])"
    by (rule prod_eqI) (simp_all only: a f fst_conv snd_conv)
  with del show ?thesis by (rule conjI)
qed

section \<open>A pod whose ordinal is the initial value of firstUnhealthyOrdinal\<close>

text \<open>
  Claim C10. The three pointers the claim names are not nil in the set \<open>web\<close> scaled to
  zero replicas. Its snapshot holds one pod, \<open>web-2147483647\<close>, that is running but not
  ready. The pod is condemned and unhealthy, its ordinal is not below
  \<^verbatim>\<open>math.MaxInt32\<close>, so \<^verbatim>\<open>firstUnhealthyPod\<close> stays nil while \<^verbatim>\<open>unhealthy\<close> is 1, and
  the log call of line 357 dereferences it: \<^verbatim>\<open>UpdateStatefulSet\<close> panics.
\<close>

theorem first_unhealthy_pod_nil_dereference:
  "set_replicas (web_set\<lparr>set_replicas := Some 0\<rparr>) = Some 0 \<and>
   set_revisionHistoryLimit (web_set\<lparr>set_replicas := Some 0\<rparr>) = Some 1 \<and>
   map_option ru_partition (set_rollingUpdate (web_set\<lparr>set_replicas := Some 0\<rparr>))
     = Some (Some 0) \<and>
   getOrdinal ((web_pod ''web-2147483647'' ''web-v2'')\<lparr>pod_ready := False\<rparr>) = MaxInt32 \<and>
   UpdateStatefulSet web_utils web_env (web_set\<lparr>set_replicas := Some 0\<rparr>)
       [(web_pod ''web-2147483647'' ''web-v2'')\<lparr>pod_ready := False\<rparr>]
     = (Panicked NilDereference, [])"
  by (simp add: revision_evals pass_evals pod_evals web_evals)

end
